theory Spec2Isabelle
  imports Complex_Main
begin

section \<open>The recurrence engine of the Eisenhower-matrix client\<close>

text \<open>
  The functions of \<^verbatim>\<open>src/App.tsx\<close> that compute the next deadline of a recurring task,
  describe a recurrence, convert it from and to the edit form, and validate the
  recurrence found in the answer of the language model.

  JavaScript numbers are modelled as rationals (the arithmetic used here, comparison,
  \<^verbatim>\<open>Math.floor\<close>, \<^verbatim>\<open>Math.min\<close>, \<^verbatim>\<open>Math.max\<close> and sums of small numbers, is exact on them);
  a \<^verbatim>\<open>Date\<close> is its time value in milliseconds since the epoch, or no value for an
  Invalid Date. The methods \<^verbatim>\<open>getDate\<close>, \<^verbatim>\<open>getDay\<close>, \<^verbatim>\<open>getMonth\<close>, \<^verbatim>\<open>getFullYear\<close>,
  \<^verbatim>\<open>setDate\<close>, \<^verbatim>\<open>setMonth\<close>, \<^verbatim>\<open>setFullYear\<close> and the constructor with year, month and
  day work in the local time of the host; \<^verbatim>\<open>toISOString\<close> and the parsing of a date-only
  text work in UTC. The time zone of the host is the parameter \<open>tz\<close>: the offset of its
  local time from UTC, in milliseconds, as a function of the instant.
\<close>

subsection \<open>Days, years and months (ECMA-262, Date objects)\<close>

definition msPerDay :: int where
  "msPerDay = 86400000"

definition Day :: "int \<Rightarrow> int" where
  "Day t = t div msPerDay"

definition TimeWithinDay :: "int \<Rightarrow> int" where
  "TimeWithinDay t = t mod msPerDay"

definition DayFromYear :: "int \<Rightarrow> int" where
  "DayFromYear y =
     365 * (y - 1970) + (y - 1969) div 4 - (y - 1901) div 100 + (y - 1601) div 400"

definition DaysInYear :: "int \<Rightarrow> int" where
  "DaysInYear y =
     (if y mod 4 \<noteq> 0 then 365 else if y mod 100 \<noteq> 0 then 366
      else if y mod 400 \<noteq> 0 then 365 else 366)"

text \<open>
  The year of a day is the largest \<open>y\<close> with \<open>DayFromYear y \<le> d\<close>. It is computed from
  the estimate \<open>1970 + \<lfloor>d / 365.2425\<rfloor>\<close>, which is off by at most one
  (lemma \<open>YearFromDay_bounds\<close>).
\<close>

definition YearFromDay :: "int \<Rightarrow> int" where
  "YearFromDay d =
     (let y = 1970 + (400 * d) div 146097 in
      if DayFromYear (y + 1) \<le> d then y + 1
      else if d < DayFromYear y then y - 1 else y)"

definition InLeapYear :: "int \<Rightarrow> int" where
  "InLeapYear y = (if DaysInYear y = 366 then 1 else 0)"

text \<open>The number of days of the year before month \<open>m\<close> (0 = January; 12 = the year's end).\<close>

definition MonthStart :: "int \<Rightarrow> int \<Rightarrow> int" where
  "MonthStart leap m =
     (if m = 0 then 0 else if m = 1 then 31 else if m = 2 then 59 + leap
      else if m = 3 then 90 + leap else if m = 4 then 120 + leap
      else if m = 5 then 151 + leap else if m = 6 then 181 + leap
      else if m = 7 then 212 + leap else if m = 8 then 243 + leap
      else if m = 9 then 273 + leap else if m = 10 then 304 + leap
      else if m = 11 then 334 + leap else 365 + leap)"

definition MonthFromDay :: "int \<Rightarrow> int" where
  "MonthFromDay d =
     (let y = YearFromDay d; w = d - DayFromYear y; l = InLeapYear y in
      if w < 31 then 0 else if w < 59 + l then 1 else if w < 90 + l then 2
      else if w < 120 + l then 3 else if w < 151 + l then 4 else if w < 181 + l then 5
      else if w < 212 + l then 6 else if w < 243 + l then 7 else if w < 273 + l then 8
      else if w < 304 + l then 9 else if w < 334 + l then 10 else 11)"

definition DateFromDay :: "int \<Rightarrow> int" where
  "DateFromDay d =
     (let y = YearFromDay d in
      d - DayFromYear y - MonthStart (InLeapYear y) (MonthFromDay d) + 1)"

definition WeekDay :: "int \<Rightarrow> int" where
  "WeekDay d = (d + 4) mod 7"

text \<open>\<^verbatim>\<open>MakeDay\<close>: months beyond 0..11 carry into the year, days beyond the month's length
  carry into the following months.\<close>

definition MakeDay :: "int \<Rightarrow> int \<Rightarrow> int \<Rightarrow> int" where
  "MakeDay yr mo dt =
     (let ym = yr + mo div 12; mn = mo mod 12 in
      DayFromYear ym + MonthStart (InLeapYear ym) mn + dt - 1)"

definition MakeDate :: "int \<Rightarrow> int \<Rightarrow> int" where
  "MakeDate dy tm = dy * msPerDay + tm"

definition maxTime :: int where
  "maxTime = 8640000000000000"

definition TimeClip :: "int \<Rightarrow> int option" where
  "TimeClip t = (if \<bar>t\<bar> \<le> maxTime then Some t else None)"

text \<open>The first day of the month with the running number \<open>n = 12 * year + month\<close>.\<close>

definition MonthFirst :: "int \<Rightarrow> int" where
  "MonthFirst n = DayFromYear (n div 12) + MonthStart (InLeapYear (n div 12)) (n mod 12)"

subsection \<open>Numbers\<close>

text \<open>\<^verbatim>\<open>ToIntegerOrInfinity\<close> of a finite number: truncation towards zero.\<close>

definition ToInteger :: "rat \<Rightarrow> int" where
  "ToInteger q = (if 0 \<le> q then \<lfloor>q\<rfloor> else \<lceil>q\<rceil>)"

definition isInteger :: "rat \<Rightarrow> bool" where
  "isInteger q = (of_int \<lfloor>q\<rfloor> = q)"

text \<open>The remainder \<^verbatim>\<open>a % b\<close>, with the sign of the dividend.\<close>

definition remainder :: "rat \<Rightarrow> rat \<Rightarrow> rat" where
  "remainder a b = a - b * of_int (ToInteger (a / b))"

subsection \<open>Date objects\<close>

text \<open>A \<^verbatim>\<open>Date\<close> is its time value; \<open>None\<close> is the Invalid Date (time value \<^verbatim>\<open>NaN\<close>).\<close>

type_synonym Date = "int option"

datatype js_error = Error string | RangeError

text \<open>A date text \<^verbatim>\<open>YYYY-MM-DD\<close>, given by its year, month (1..12) and day.\<close>

type_synonym DateString = "int \<times> int \<times> int"

text \<open>
  The time zone of the host (ECMA-262, \<^verbatim>\<open>LocalTZA\<close>): \<open>offsetAtUTC tz t\<close> is the offset of local
  time from UTC in force at the instant \<open>t\<close> (\<^verbatim>\<open>LocalTZA(t, true)\<close>); \<open>offsetAtLocal tz l\<close> is
  the offset with which the local time \<open>l\<close> is read (\<^verbatim>\<open>LocalTZA(l, false)\<close>), which for a
  local time that a change of offset skips or repeats is the offset before the change.
\<close>

record TimeZone =
  offsetAtUTC :: "int \<Rightarrow> int"
  offsetAtLocal :: "int \<Rightarrow> int"

definition LocalTime :: "TimeZone \<Rightarrow> int \<Rightarrow> int" where
  "LocalTime tz t = t + offsetAtUTC tz t"

definition UTC :: "TimeZone \<Rightarrow> int \<Rightarrow> int" where
  "UTC tz l = l - offsetAtLocal tz l"

text \<open>A host whose offset never changes (\<open>fixedZone 0\<close> is a host on UTC).\<close>

definition fixedZone :: "int \<Rightarrow> TimeZone" where
  "fixedZone c = \<lparr>offsetAtUTC = (\<lambda>t. c), offsetAtLocal = (\<lambda>l. c)\<rparr>"

text \<open>
  A host in New York, with the rule of the year 2024: five hours behind UTC, and four
  hours behind it from 10 March 2024, 07:00 UTC (when local clocks go from 02:00 to
  03:00) to 3 November 2024, 06:00 UTC (when they go from 02:00 back to 01:00).
\<close>

definition newYork2024 :: TimeZone where
  "newYork2024 =
     \<lparr>offsetAtUTC = (\<lambda>t. if 1710054000000 \<le> t \<and> t < 1730613600000
                          then - 14400000 else - 18000000),
      offsetAtLocal = (\<lambda>l. if 1710039600000 \<le> l \<and> l < 1730599200000
                            then - 14400000 else - 18000000)\<rparr>"

definition getFullYear :: "TimeZone \<Rightarrow> int \<Rightarrow> int" where
  "getFullYear tz t = YearFromDay (Day (LocalTime tz t))"

definition getMonth :: "TimeZone \<Rightarrow> int \<Rightarrow> int" where
  "getMonth tz t = MonthFromDay (Day (LocalTime tz t))"

definition getDate :: "TimeZone \<Rightarrow> int \<Rightarrow> int" where
  "getDate tz t = DateFromDay (Day (LocalTime tz t))"

definition getDay :: "TimeZone \<Rightarrow> int \<Rightarrow> int" where
  "getDay tz t = WeekDay (Day (LocalTime tz t))"

definition setDate :: "TimeZone \<Rightarrow> int \<Rightarrow> rat \<Rightarrow> Date" where
  "setDate tz t dt =
     (let lt = LocalTime tz t;
          newDay = MakeDay (YearFromDay (Day lt)) (MonthFromDay (Day lt)) (ToInteger dt)
      in TimeClip (UTC tz (MakeDate newDay (TimeWithinDay lt))))"

definition setMonth :: "TimeZone \<Rightarrow> int \<Rightarrow> rat \<Rightarrow> Date" where
  "setMonth tz t mo =
     (let lt = LocalTime tz t;
          newDay = MakeDay (YearFromDay (Day lt)) (ToInteger mo) (DateFromDay (Day lt))
      in TimeClip (UTC tz (MakeDate newDay (TimeWithinDay lt))))"

definition setFullYear :: "TimeZone \<Rightarrow> int \<Rightarrow> rat \<Rightarrow> Date" where
  "setFullYear tz t yr =
     (let lt = LocalTime tz t;
          newDay = MakeDay (ToInteger yr) (MonthFromDay (Day lt)) (DateFromDay (Day lt))
      in TimeClip (UTC tz (MakeDate newDay (TimeWithinDay lt))))"

text \<open>\<^verbatim>\<open>new Date(year, month, date)\<close>: local midnight; a year in 0..99 means 1900 + year.\<close>

definition newDateLocal :: "TimeZone \<Rightarrow> int \<Rightarrow> int \<Rightarrow> int \<Rightarrow> Date" where
  "newDateLocal tz y m dt =
     (let yr = (if 0 \<le> y \<and> y \<le> 99 then 1900 + y else y)
      in TimeClip (UTC tz (MakeDate (MakeDay yr m dt) 0)))"

text \<open>
  \<^verbatim>\<open>new Date(text)\<close> for a date-only text: midnight UTC of that day. A text that is not
  a calendar date with a four-digit year gives the Invalid Date (so does here a day
  beyond the length of its month, such as 30 February, on which engines differ).
\<close>

definition validDateString :: "DateString \<Rightarrow> bool" where
  "validDateString s =
     (case s of (y, m, d) \<Rightarrow>
        0 \<le> y \<and> y \<le> 9999 \<and> 1 \<le> m \<and> m \<le> 12 \<and> 1 \<le> d \<and>
        d \<le> MonthStart (InLeapYear y) m - MonthStart (InLeapYear y) (m - 1))"

definition newDateParse :: "DateString \<Rightarrow> Date" where
  "newDateParse s =
     (case s of (y, m, d) \<Rightarrow>
        if validDateString (y, m, d) then TimeClip (MakeDate (MakeDay y (m - 1) d) 0)
        else None)"

text \<open>\<^verbatim>\<open>date.toISOString().split('T')[0]\<close>: the UTC calendar date; throws on an Invalid Date.\<close>

definition toISODate :: "Date \<Rightarrow> js_error + DateString" where
  "toISODate date =
     (case date of
        None \<Rightarrow> Inl RangeError
      | Some t \<Rightarrow> Inr (YearFromDay (Day t), MonthFromDay (Day t) + 1, DateFromDay (Day t)))"

text \<open>The day number of a date text: the days from 1 January 1970 to it.\<close>

definition dateNumber :: "DateString \<Rightarrow> int" where
  "dateNumber s = (case s of (y, m, d) \<Rightarrow> MakeDay y (m - 1) d)"

subsection \<open>Recurrences\<close>

datatype LegacyRecurrencePattern = Daily | Weekly | Monthly | Yearly

datatype RecurrenceUnit = DayUnit | WeekUnit | MonthUnit | YearUnit

record RecurrenceConfig =
  interval :: rat
  unit :: RecurrenceUnit
  weekDays :: "rat list option"
  monthDay :: "rat option"

datatype TaskRecurrence = Null | Legacy LegacyRecurrencePattern | Flexible RecurrenceConfig

subsection \<open>The next deadline\<close>

definition getDaysInMonth :: "TimeZone \<Rightarrow> Date \<Rightarrow> int option" where
  "getDaysInMonth tz date =
     (case date of
        None \<Rightarrow> None
      | Some t \<Rightarrow>
          (case newDateLocal tz (getFullYear tz t) (getMonth tz t + 1) 0 of
             None \<Rightarrow> None
           | Some u \<Rightarrow> Some (getDate tz u)))"

text \<open>
  With an empty \<open>weekDays\<close>, \<^verbatim>\<open>sortedDays[0]\<close> is \<^verbatim>\<open>undefined\<close>, the sum is \<^verbatim>\<open>NaN\<close> and
  \<^verbatim>\<open>setDate\<close> leaves an Invalid Date.
\<close>

definition findNextWeekdayOccurrence ::
    "TimeZone \<Rightarrow> Date \<Rightarrow> rat \<Rightarrow> rat list \<Rightarrow> js_error + DateString" where
  "findNextWeekdayOccurrence tz baseDate weekInterval wds =
     (case baseDate of
        None \<Rightarrow> toISODate None
      | Some t \<Rightarrow>
          (let sortedDays = sort wds;
               currentDay = getDay tz t;
               nextDayThisWeek = find (\<lambda>d. of_int currentDay < d) sortedDays
           in if nextDayThisWeek \<noteq> None \<and> weekInterval = 1 then
                (let daysToAdd = the nextDayThisWeek - of_int currentDay
                 in toISODate (setDate tz t (of_int (getDate tz t) + daysToAdd)))
              else
                (case sortedDays of
                   [] \<Rightarrow> toISODate None
                 | s0 # _ \<Rightarrow>
                     (let daysUntilNextWeek = 7 - of_int currentDay + s0;
                          additionalWeeks = (weekInterval - 1) * 7
                      in toISODate (setDate tz t
                           (of_int (getDate tz t) + daysUntilNextWeek + additionalWeeks))))))"

definition calculateLegacyNextDeadline ::
    "TimeZone \<Rightarrow> Date \<Rightarrow> LegacyRecurrencePattern \<Rightarrow> js_error + DateString" where
  "calculateLegacyNextDeadline tz baseDate recurrence =
     (case baseDate of
        None \<Rightarrow> toISODate None
      | Some t \<Rightarrow>
          toISODate
            (case recurrence of
               Daily \<Rightarrow> setDate tz t (of_int (getDate tz t) + 1)
             | Weekly \<Rightarrow> setDate tz t (of_int (getDate tz t) + 7)
             | Monthly \<Rightarrow> setMonth tz t (of_int (getMonth tz t) + 1)
             | Yearly \<Rightarrow> setFullYear tz t (of_int (getFullYear tz t) + 1)))"

definition calculateFlexibleNextDeadline ::
    "TimeZone \<Rightarrow> Date \<Rightarrow> RecurrenceConfig \<Rightarrow> js_error + DateString" where
  "calculateFlexibleNextDeadline tz baseDate config =
     (case baseDate of
        None \<Rightarrow> toISODate None
      | Some t \<Rightarrow>
          (case unit config of
             DayUnit \<Rightarrow> toISODate (setDate tz t (of_int (getDate tz t) + interval config))
           | WeekUnit \<Rightarrow>
               (case weekDays config of
                  Some (w # ws) \<Rightarrow>
                    findNextWeekdayOccurrence tz baseDate (interval config) (w # ws)
                | _ \<Rightarrow> toISODate (setDate tz t (of_int (getDate tz t) + interval config * 7)))
           | MonthUnit \<Rightarrow>
               (let nextDate = setMonth tz t (of_int (getMonth tz t) + interval config)
                in case monthDay config of
                     None \<Rightarrow> toISODate nextDate
                   | Some md \<Rightarrow>
                       (case nextDate of
                          None \<Rightarrow> toISODate None
                        | Some u \<Rightarrow>
                            (case getDaysInMonth tz nextDate of
                               None \<Rightarrow> toISODate None
                             | Some n \<Rightarrow> toISODate (setDate tz u (min md (of_int n))))))
           | YearUnit \<Rightarrow>
               toISODate (setFullYear tz t (of_int (getFullYear tz t) + interval config))))"

text \<open>
  \<open>now\<close> is the time value that \<^verbatim>\<open>new Date()\<close> gives when the function is called; an
  absent (or empty) deadline is \<open>None\<close>.
\<close>

definition baseDateOf :: "int \<Rightarrow> DateString option \<Rightarrow> Date" where
  "baseDateOf now currentDeadline =
     (case currentDeadline of None \<Rightarrow> Some now | Some s \<Rightarrow> newDateParse s)"

definition calculateNextDeadline ::
    "TimeZone \<Rightarrow> int \<Rightarrow> DateString option \<Rightarrow> TaskRecurrence \<Rightarrow> js_error + DateString" where
  "calculateNextDeadline tz now currentDeadline recurrence =
     (case recurrence of
        Null \<Rightarrow> Inl (Error ''Recurrence pattern is required'')
      | Legacy p \<Rightarrow> calculateLegacyNextDeadline tz (baseDateOf now currentDeadline) p
      | Flexible c \<Rightarrow> calculateFlexibleNextDeadline tz (baseDateOf now currentDeadline) c)"

subsection \<open>The description\<close>

definition DAY_NAMES :: "string list" where
  "DAY_NAMES = [''Sun'', ''Mon'', ''Tue'', ''Wed'', ''Thu'', ''Fri'', ''Sat'']"

text \<open>\<^verbatim>\<open>xs[k]\<close> for a number \<open>k\<close>: \<^verbatim>\<open>undefined\<close> unless \<open>k\<close> is an index of the array.\<close>

definition arrayAt :: "'a list \<Rightarrow> rat \<Rightarrow> 'a option" where
  "arrayAt xs k =
     (if isInteger k \<and> 0 \<le> k \<and> \<lfloor>k\<rfloor> < int (length xs) then Some (xs ! nat \<lfloor>k\<rfloor>) else None)"

text \<open>\<^verbatim>\<open>Array.prototype.join\<close>; an \<^verbatim>\<open>undefined\<close> element is joined as the empty text.\<close>

fun join :: "string \<Rightarrow> string option list \<Rightarrow> string" where
  "join sep [] = []"
| "join sep [x] = (case x of None \<Rightarrow> [] | Some s \<Rightarrow> s)"
| "join sep (x # y # ys) = (case x of None \<Rightarrow> [] | Some s \<Rightarrow> s) @ sep @ join sep (y # ys)"

definition getOrdinalSuffix :: "rat \<Rightarrow> string" where
  "getOrdinalSuffix n =
     (let s = [''th'', ''st'', ''nd'', ''rd''];
          v = remainder n 100
      in case arrayAt s (remainder (v - 20) 10) of
           Some x \<Rightarrow> x
         | None \<Rightarrow> (case arrayAt s v of Some x \<Rightarrow> x | None \<Rightarrow> s ! 0))"

text \<open>\<^verbatim>\<open>xs.every((d, i) => d === i + 1)\<close>.\<close>

definition everyIsIndexPlusOne :: "rat list \<Rightarrow> bool" where
  "everyIsIndexPlusOne xs = list_all (\<lambda>(d, i). d = of_nat i + 1) (zip xs [0 ..< length xs])"

text \<open>A number is truthy unless it is absent or zero.\<close>

definition truthy :: "rat option \<Rightarrow> bool" where
  "truthy m = (case m of None \<Rightarrow> False | Some q \<Rightarrow> q \<noteq> 0)"

text \<open>
  \<open>str\<close> is the conversion of a number to text that a template literal applies
  (\<^verbatim>\<open>Number::toString\<close> of the host).
\<close>

definition getRecurrenceDescription :: "(rat \<Rightarrow> string) \<Rightarrow> TaskRecurrence \<Rightarrow> string" where
  "getRecurrenceDescription str recurrence =
     (case recurrence of
        Null \<Rightarrow> []
      | Legacy p \<Rightarrow>
          (case p of Daily \<Rightarrow> ''Daily'' | Weekly \<Rightarrow> ''Weekly''
                   | Monthly \<Rightarrow> ''Monthly'' | Yearly \<Rightarrow> ''Yearly'')
      | Flexible c \<Rightarrow>
          (let wds = (case weekDays c of None \<Rightarrow> [] | Some l \<Rightarrow> l) in
           if unit c = WeekUnit \<and> 0 < length wds then
             (let dayList = join '', '' (map (arrayAt DAY_NAMES) wds) in
              if length wds = 5 \<and> everyIsIndexPlusOne wds then
                (if interval c = 1 then ''Weekdays''
                 else ''Every '' @ str (interval c) @ '' weeks (weekdays)'')
              else if length wds = 2 \<and> 0 \<in> set wds \<and> 6 \<in> set wds then
                (if interval c = 1 then ''Weekends''
                 else ''Every '' @ str (interval c) @ '' weeks (weekends)'')
              else
                (if interval c = 1 then ''Every '' @ dayList
                 else ''Every '' @ str (interval c) @ '' weeks on '' @ dayList))
           else if unit c = MonthUnit \<and> truthy (monthDay c) then
             (let md = the (monthDay c); suffix = getOrdinalSuffix md in
              if interval c = 1 then str md @ suffix @ '' of each month''
              else str md @ suffix @ '' every '' @ str (interval c) @ '' months'')
           else if interval c = 1 then
             (case unit c of DayUnit \<Rightarrow> ''Daily'' | WeekUnit \<Rightarrow> ''Weekly''
                           | MonthUnit \<Rightarrow> ''Monthly'' | YearUnit \<Rightarrow> ''Yearly'')
           else if interval c = 2 then
             (case unit c of DayUnit \<Rightarrow> ''Every other day'' | WeekUnit \<Rightarrow> ''Biweekly''
                           | MonthUnit \<Rightarrow> ''Bimonthly'' | YearUnit \<Rightarrow> ''Biannual'')
           else
             ''Every '' @ str (interval c) @ '' '' @
             (case unit c of DayUnit \<Rightarrow> ''days'' | WeekUnit \<Rightarrow> ''weeks''
                           | MonthUnit \<Rightarrow> ''months'' | YearUnit \<Rightarrow> ''years'')))"

subsection \<open>The edit form\<close>

datatype FormPreset = Named LegacyRecurrencePattern | Custom

record RecurrenceFormState =
  enabled :: bool
  preset :: "FormPreset option"
  formInterval :: rat
  formUnit :: RecurrenceUnit
  formWeekDays :: "rat list"
  formMonthDay :: "rat option"
  useSpecificMonthDay :: bool

definition defaultRecurrenceForm :: RecurrenceFormState where
  "defaultRecurrenceForm =
     \<lparr>enabled = False, preset = None, formInterval = 1, formUnit = WeekUnit,
      formWeekDays = [], formMonthDay = None, useSpecificMonthDay = False\<rparr>"

definition buildRecurrenceConfig :: "RecurrenceFormState \<Rightarrow> TaskRecurrence" where
  "buildRecurrenceConfig formState =
     (if \<not> enabled formState then Null
      else case preset formState of
             Some (Named p) \<Rightarrow> Legacy p
           | _ \<Rightarrow>
               Flexible
                 \<lparr>interval = formInterval formState,
                  unit = formUnit formState,
                  weekDays =
                    (if formUnit formState = WeekUnit \<and> 0 < length (formWeekDays formState)
                     then Some (formWeekDays formState) else None),
                  monthDay =
                    (if formUnit formState = MonthUnit \<and> useSpecificMonthDay formState
                        \<and> truthy (formMonthDay formState)
                     then formMonthDay formState else None)\<rparr>)"

definition parseRecurrenceToFormState :: "TaskRecurrence \<Rightarrow> RecurrenceFormState" where
  "parseRecurrenceToFormState recurrence =
     (case recurrence of
        Null \<Rightarrow> defaultRecurrenceForm
      | Legacy p \<Rightarrow>
          \<lparr>enabled = True, preset = Some (Named p), formInterval = 1,
           formUnit = (case p of Daily \<Rightarrow> DayUnit | Weekly \<Rightarrow> WeekUnit
                               | Monthly \<Rightarrow> MonthUnit | Yearly \<Rightarrow> YearUnit),
           formWeekDays = [], formMonthDay = None, useSpecificMonthDay = False\<rparr>
      | Flexible c \<Rightarrow>
          \<lparr>enabled = True, preset = Some Custom, formInterval = interval c,
           formUnit = unit c,
           formWeekDays = (case weekDays c of None \<Rightarrow> [] | Some l \<Rightarrow> l),
           formMonthDay = monthDay c,
           useSpecificMonthDay = (monthDay c \<noteq> None)\<rparr>)"

subsection \<open>The validator\<close>

text \<open>
  \<^verbatim>\<open>validateRecurrence\<close> is a local function of \<^verbatim>\<open>addTask\<close>, applied to the field
  \<^verbatim>\<open>recurrence\<close> of the parsed JSON answer: its argument is a JSON value, or
  \<^verbatim>\<open>undefined\<close> when the field is missing. A JSON number is finite or, for a literal
  beyond the range of a double, infinite; it is never \<^verbatim>\<open>NaN\<close>. An object is the list of
  its properties, each name once.
\<close>

datatype number = Finite rat | PosInfinity | NegInfinity

datatype js_value =
    JUndefined
  | JNull
  | JBool bool
  | JNumber number
  | JString string
  | JArray "js_value list"
  | JObject "(string \<times> js_value) list"

definition numberLess :: "number \<Rightarrow> rat \<Rightarrow> bool" where
  "numberLess n q = (case n of Finite x \<Rightarrow> x < q | PosInfinity \<Rightarrow> False | NegInfinity \<Rightarrow> True)"

text \<open>\<^verbatim>\<open>Math.max(1, Math.min(99, Math.floor(n)))\<close>.\<close>

definition clampInterval :: "number \<Rightarrow> rat" where
  "clampInterval n =
     (case n of
        Finite x \<Rightarrow> max 1 (min 99 (of_int \<lfloor>x\<rfloor>))
      | PosInfinity \<Rightarrow> max 1 (min 99 99)
      | NegInfinity \<Rightarrow> 1)"

text \<open>The elements that pass \<^verbatim>\<open>typeof d === 'number' && d >= 0 && d <= 6\<close>.\<close>

definition validDay :: "js_value \<Rightarrow> rat option" where
  "validDay v =
     (case v of
        JNumber (Finite d) \<Rightarrow> (if 0 \<le> d \<and> d \<le> 6 then Some d else None)
      | _ \<Rightarrow> None)"

text \<open>\<^verbatim>\<open>[...new Set(xs)]\<close>: the elements in the order of their first occurrence.\<close>

definition uniq :: "'a list \<Rightarrow> 'a list" where
  "uniq xs = fold (\<lambda>x seen. if x \<in> set seen then seen else seen @ [x]) xs []"

definition legacyOfName :: "string \<Rightarrow> LegacyRecurrencePattern option" where
  "legacyOfName s =
     (if s = ''daily'' then Some Daily else if s = ''weekly'' then Some Weekly
      else if s = ''monthly'' then Some Monthly else if s = ''yearly'' then Some Yearly
      else None)"

definition unitOfValue :: "js_value option \<Rightarrow> RecurrenceUnit option" where
  "unitOfValue v =
     (case v of
        Some (JString s) \<Rightarrow>
          (if s = ''day'' then Some DayUnit else if s = ''week'' then Some WeekUnit
           else if s = ''month'' then Some MonthUnit else if s = ''year'' then Some YearUnit
           else None)
      | _ \<Rightarrow> None)"

definition validatedWeekDays :: "js_value option \<Rightarrow> rat list option" where
  "validatedWeekDays v =
     (case v of
        Some (JArray xs) \<Rightarrow>
          (if 0 < length xs then
             (let validDays = List.map_filter validDay xs in
              if 0 < length validDays then Some (sort (uniq validDays)) else None)
           else None)
      | _ \<Rightarrow> None)"

definition validatedMonthDay :: "js_value option \<Rightarrow> rat option" where
  "validatedMonthDay v =
     (case v of
        Some (JNumber (Finite m)) \<Rightarrow> (if 1 \<le> m \<and> m \<le> 31 then Some m else None)
      | _ \<Rightarrow> None)"

definition validateRecurrence :: "js_value \<Rightarrow> TaskRecurrence" where
  "validateRecurrence rec =
     (case rec of
        JNull \<Rightarrow> Null
      | JUndefined \<Rightarrow> Null
      | JString s \<Rightarrow> (case legacyOfName s of Some p \<Rightarrow> Legacy p | None \<Rightarrow> Null)
      | JObject props \<Rightarrow>
          (case map_of props ''interval'' of
             Some (JNumber n) \<Rightarrow>
               (if numberLess n 1 then Null
                else case unitOfValue (map_of props ''unit'') of
                       None \<Rightarrow> Null
                     | Some u \<Rightarrow>
                         Flexible
                           \<lparr>interval = clampInterval n, unit = u,
                            weekDays = validatedWeekDays (map_of props ''weekDays''),
                            monthDay = validatedMonthDay (map_of props ''monthDay'')\<rparr>)
           | _ \<Rightarrow> Null)
      | JArray xs \<Rightarrow> Null
      | JBool b \<Rightarrow> Null
      | JNumber n \<Rightarrow> Null)"

text \<open>A recurrence as the JavaScript value it is (the value that \<^verbatim>\<open>JSON.stringify\<close> writes).\<close>

definition legacyName :: "LegacyRecurrencePattern \<Rightarrow> string" where
  "legacyName p =
     (case p of Daily \<Rightarrow> ''daily'' | Weekly \<Rightarrow> ''weekly''
              | Monthly \<Rightarrow> ''monthly'' | Yearly \<Rightarrow> ''yearly'')"

definition unitName :: "RecurrenceUnit \<Rightarrow> string" where
  "unitName u =
     (case u of DayUnit \<Rightarrow> ''day'' | WeekUnit \<Rightarrow> ''week''
              | MonthUnit \<Rightarrow> ''month'' | YearUnit \<Rightarrow> ''year'')"

definition asValue :: "TaskRecurrence \<Rightarrow> js_value" where
  "asValue r =
     (case r of
        Null \<Rightarrow> JNull
      | Legacy p \<Rightarrow> JString (legacyName p)
      | Flexible c \<Rightarrow>
          JObject
            ([(''interval'', JNumber (Finite (interval c))),
              (''unit'', JString (unitName (unit c)))]
             @ (case weekDays c of
                  None \<Rightarrow> []
                | Some l \<Rightarrow> [(''weekDays'', JArray (map (\<lambda>d. JNumber (Finite d)) l))])
             @ (case monthDay c of
                  None \<Rightarrow> []
                | Some m \<Rightarrow> [(''monthDay'', JNumber (Finite m))])))"

subsection \<open>The data model\<close>

text \<open>
  The invariants that the specification gives for a flexible recurrence: an integer
  interval from 1 to 99, week days that are integers from 0 to 6, a month day from 1 to
  31. (An empty or unsorted list of week days is admitted here as well.)
\<close>

definition wellFormedConfig :: "RecurrenceConfig \<Rightarrow> bool" where
  "wellFormedConfig c =
     (isInteger (interval c) \<and> 1 \<le> interval c \<and> interval c \<le> 99
      \<and> (case weekDays c of
            None \<Rightarrow> True
          | Some l \<Rightarrow> list_all (\<lambda>d. isInteger d \<and> 0 \<le> d \<and> d \<le> 6) l)
      \<and> (case monthDay c of None \<Rightarrow> True | Some m \<Rightarrow> 1 \<le> m \<and> m \<le> 31))"

definition wellFormed :: "TaskRecurrence \<Rightarrow> bool" where
  "wellFormed r =
     (case r of Null \<Rightarrow> False | Legacy p \<Rightarrow> True | Flexible c \<Rightarrow> wellFormedConfig c)"

text \<open>
  What the validator guarantees of a flexible recurrence: as the data model, but the
  week days need not be integers.
\<close>

definition validatedConfig :: "RecurrenceConfig \<Rightarrow> bool" where
  "validatedConfig c =
     (isInteger (interval c) \<and> 1 \<le> interval c \<and> interval c \<le> 99
      \<and> (case weekDays c of
            None \<Rightarrow> True
          | Some l \<Rightarrow> list_all (\<lambda>d. 0 \<le> d \<and> d \<le> 6) l)
      \<and> (case monthDay c of None \<Rightarrow> True | Some m \<Rightarrow> 1 \<le> m \<and> m \<le> 31))"

definition validated :: "TaskRecurrence \<Rightarrow> bool" where
  "validated r =
     (case r of Null \<Rightarrow> False | Legacy p \<Rightarrow> True | Flexible c \<Rightarrow> validatedConfig c)"

text \<open>A deadline is absent or the text of a calendar date.\<close>

definition wellFormedDeadline :: "DateString option \<Rightarrow> bool" where
  "wellFormedDeadline dl = (case dl of None \<Rightarrow> True | Some s \<Rightarrow> validDateString s)"


text \<open>
  A time zone whose offsets stay within a day of UTC (those in use stay within 14
  hours).
\<close>

definition boundedZone :: "TimeZone \<Rightarrow> bool" where
  "boundedZone tz =
     (\<forall>t. \<bar>offsetAtUTC tz t\<bar> \<le> msPerDay \<and> \<bar>offsetAtLocal tz t\<bar> \<le> msPerDay)"

text \<open>
  The \<^verbatim>\<open>Date\<close> whose local time is \<open>k\<close> days after the local time of \<open>t\<close>: what the setters
  leave when they move the local day by \<open>k\<close>.
\<close>

definition localDaysLater :: "TimeZone \<Rightarrow> int \<Rightarrow> int \<Rightarrow> Date" where
  "localDaysLater tz t k = TimeClip (UTC tz (LocalTime tz t + k * msPerDay))"

text \<open>
  A time value that is at least a million days away from the ends of the range of
  \<^verbatim>\<open>Date\<close> (which are 100 million days from the epoch).
\<close>

definition awayFromLimits :: "int \<Rightarrow> bool" where
  "awayFromLimits t = (\<bar>t\<bar> + 1000000 * msPerDay \<le> maxTime)"

text \<open>
  The number of days that the specification adds for a weekly recurrence with selected
  week days: with interval 1 and a selected day later in the week of the base date,
  the distance to the nearest such day; otherwise the days up to the smallest selected
  day of the following week, and \<open>n - 1\<close> further weeks.
\<close>

definition specDaysToAdd :: "int \<Rightarrow> int \<Rightarrow> int list \<Rightarrow> int" where
  "specDaysToAdd current n ds =
     (let later = filter (\<lambda>d. current < d) ds in
      if n = 1 \<and> later \<noteq> [] then Min (set later) - current
      else (7 - current + Min (set ds)) + (n - 1) * 7)"

section \<open>The calendar\<close>

lemma div_bounds: "0 < c \<Longrightarrow> c * (x div c) \<le> x \<and> x < c * (x div c) + c" for x c :: int
proof -
  assume c: "0 < c"
  have "x = c * (x div c) + x mod c" by simp
  moreover have "0 \<le> x mod c" "x mod c < c" using c by simp_all
  ultimately show ?thesis by linarith
qed

lemma div_step:
  "0 < c \<Longrightarrow> (x + 1) div c = x div c + (if (x + 1) mod c = 0 then 1 else 0)" for x c :: int
proof -
  assume c: "0 < c"
  define q r where "q = x div c" and "r = x mod c"
  have x: "x = c * q + r" and r: "0 \<le> r" "r < c"
    using c by (simp_all add: q_def r_def)
  show ?thesis
  proof (cases "r + 1 = c")
    case True
    then have e: "x + 1 = c * (q + 1) + 0" using x by (simp add: algebra_simps)
    have "(x + 1) div c = q + 1" using int_div_pos_eq[OF e] c by simp
    moreover have "(x + 1) mod c = 0" using int_mod_pos_eq[OF e] c by simp
    ultimately show ?thesis by (simp add: q_def)
  next
    case False
    then have lt: "r + 1 < c" using r by simp
    have e: "x + 1 = c * q + (r + 1)" using x by simp
    have "(x + 1) div c = q" using int_div_pos_eq[OF e] r lt by simp
    moreover have "(x + 1) mod c = r + 1" using int_mod_pos_eq[OF e] r lt by simp
    ultimately show ?thesis using r by (simp add: q_def)
  qed
qed

lemma mod_step:
  "0 < c \<Longrightarrow> (x + 1) mod c = (if x mod c + 1 = c then 0 else x mod c + 1)" for x c :: int
proof -
  assume c: "0 < c"
  define q r where "q = x div c" and "r = x mod c"
  have x: "x = c * q + r" and r: "0 \<le> r" "r < c"
    using c by (simp_all add: q_def r_def)
  show ?thesis
  proof (cases "r + 1 = c")
    case True
    then have e: "x + 1 = c * (q + 1) + 0" using x by (simp add: algebra_simps)
    have "(x + 1) mod c = 0" using int_mod_pos_eq[OF e] c by simp
    then show ?thesis using True by (simp add: r_def)
  next
    case False
    then have lt: "r + 1 < c" using r by simp
    have e: "x + 1 = c * q + (r + 1)" using x by simp
    have "(x + 1) mod c = r + 1" using int_mod_pos_eq[OF e] r lt by simp
    then show ?thesis using False by (simp add: r_def)
  qed
qed

lemma mod_shift4: "(y - 1968) mod 4 = y mod 4" for y :: int
  using mod_mult_self1[of y "- 492" 4] by simp

lemma mod_shift100: "(y - 1900) mod 100 = y mod 100" for y :: int
  using mod_mult_self1[of y "- 19" 100] by simp

lemma mod_shift400: "(y - 1600) mod 400 = y mod 400" for y :: int
  using mod_mult_self1[of y "- 4" 400] by simp

lemma mod400_100: "y mod 400 = 0 \<Longrightarrow> y mod 100 = 0" for y :: int
  using mod_mod_cancel[of 100 400 y] by simp

lemma mod100_4: "y mod 100 = 0 \<Longrightarrow> y mod 4 = 0" for y :: int
  using mod_mod_cancel[of 4 100 y] by simp

lemma DayFromYear_Suc: "DayFromYear (y + 1) = DayFromYear y + DaysInYear y"
proof -
  have a: "(y + 1 - 1969) div 4 = (y - 1969) div 4 + (if y mod 4 = 0 then 1 else 0)"
    using div_step[of 4 "y - 1969"] mod_shift4[of y] by (simp add: algebra_simps)
  have b: "(y + 1 - 1901) div 100 = (y - 1901) div 100 + (if y mod 100 = 0 then 1 else 0)"
    using div_step[of 100 "y - 1901"] mod_shift100[of y] by (simp add: algebra_simps)
  have c: "(y + 1 - 1601) div 400 = (y - 1601) div 400 + (if y mod 400 = 0 then 1 else 0)"
    using div_step[of 400 "y - 1601"] mod_shift400[of y] by (simp add: algebra_simps)
  have d: "y mod 400 = 0 \<Longrightarrow> y mod 100 = 0"
    by (rule mod400_100)
  have e: "y mod 100 = 0 \<Longrightarrow> y mod 4 = 0"
    by (rule mod100_4)
  show ?thesis
    unfolding DayFromYear_def DaysInYear_def a b c using d e by auto
qed

lemma YearFromDay_estimate:
  fixes d :: int
  defines "y \<equiv> 1970 + (400 * d) div 146097"
  shows "DayFromYear (y - 1) \<le> d" and "d < DayFromYear (y + 2)"
proof -
  define a where "a = (400 * d) div 146097"
  have A: "146097 * a \<le> 400 * d" "400 * d < 146097 * a + 146097"
    using div_bounds[of 146097 "400 * d"] by (simp_all add: a_def)
  define p q r where "p = a div 4" and "q = (a + 68) div 100" and "r = (a + 368) div 400"
  have P: "4 * p \<le> a" "a < 4 * p + 4"
    using div_bounds[of 4 a] by (simp_all add: p_def)
  have Q: "100 * q \<le> a + 68" "a + 68 < 100 * q + 100"
    using div_bounds[of 100 "a + 68"] by (simp_all add: q_def)
  have R: "400 * r \<le> a + 368" "a + 368 < 400 * r + 400"
    using div_bounds[of 400 "a + 368"] by (simp_all add: r_def)
  have lo: "DayFromYear (y - 1) = 365 * (a - 1) + p - q + r"
    by (simp add: DayFromYear_def y_def a_def p_def q_def r_def add.commute)
  have "400 * (365 * (a - 1) + p - q + r) \<le> 146097 * a"
    using P(1) Q(2) R(1) by (simp add: algebra_simps)
  then have "400 * (365 * (a - 1) + p - q + r) \<le> 400 * d"
    using A(1) by linarith
  then show "DayFromYear (y - 1) \<le> d"
    unfolding lo by simp
  define p' q' r' where "p' = (a + 3) div 4" and "q' = (a + 71) div 100"
    and "r' = (a + 371) div 400"
  have P': "4 * p' \<le> a + 3" "a + 3 < 4 * p' + 4"
    using div_bounds[of 4 "a + 3"] by (simp_all add: p'_def)
  have Q': "100 * q' \<le> a + 71" "a + 71 < 100 * q' + 100"
    using div_bounds[of 100 "a + 71"] by (simp_all add: q'_def)
  have R': "400 * r' \<le> a + 371" "a + 371 < 400 * r' + 400"
    using div_bounds[of 400 "a + 371"] by (simp_all add: r'_def)
  have hi: "DayFromYear (y + 2) = 365 * (a + 2) + p' - q' + r'"
    by (simp add: DayFromYear_def y_def a_def p'_def q'_def r'_def add.commute)
  have "146097 * a + 146097 \<le> 400 * (365 * (a + 2) + p' - q' + r')"
    using P'(2) Q'(1) R'(2) by (simp add: algebra_simps)
  then have "400 * d < 400 * (365 * (a + 2) + p' - q' + r')"
    using A(2) by linarith
  then show "d < DayFromYear (y + 2)"
    unfolding hi by simp
qed

text \<open>\<open>YearFromDay d\<close> is the year that contains the day \<open>d\<close>.\<close>

lemma YearFromDay_bounds:
  "DayFromYear (YearFromDay d) \<le> d" "d < DayFromYear (YearFromDay d + 1)"
proof -
  define y where "y = 1970 + (400 * d) div 146097"
  have 1: "DayFromYear (y - 1) \<le> d" and 2: "d < DayFromYear (y + 2)"
    using YearFromDay_estimate[of d] by (simp_all add: y_def)
  have Y: "YearFromDay d = (if DayFromYear (y + 1) \<le> d then y + 1
      else if d < DayFromYear y then y - 1 else y)"
    by (simp add: YearFromDay_def y_def Let_def)
  show "DayFromYear (YearFromDay d) \<le> d"
    unfolding Y using 1 by simp
  show "d < DayFromYear (YearFromDay d + 1)"
    unfolding Y using 2 by (simp add: add.assoc)
qed

lemma MakeDay_MonthFirst: "MakeDay y m dt = MonthFirst (12 * y + m) + dt - 1"
  by (simp add: MakeDay_def MonthFirst_def Let_def)

text \<open>Every month has between 28 and 31 days.\<close>

lemma MonthFirst_step:
  "MonthFirst n + 28 \<le> MonthFirst (n + 1)" "MonthFirst (n + 1) \<le> MonthFirst n + 31"
proof -
  define y m where "y = n div 12" and "m = n mod 12"
  have m: "0 \<le> m" "m < 12" by (simp_all add: m_def)
  have l: "InLeapYear y = 0 \<or> InLeapYear y = 1" by (simp add: InLeapYear_def)
  have both: "MonthFirst n + 28 \<le> MonthFirst (n + 1) \<and> MonthFirst (n + 1) \<le> MonthFirst n + 31"
  proof (cases "m = 11")
    case True
    have d: "(n + 1) div 12 = y + 1" and r: "(n + 1) mod 12 = 0"
      using div_step[of 12 n] mod_step[of 12 n] True by (simp_all add: y_def m_def)
    have "MonthFirst (n + 1) = DayFromYear y + DaysInYear y"
      by (simp add: MonthFirst_def d r MonthStart_def DayFromYear_Suc)
    moreover have "MonthFirst n = DayFromYear y + 334 + InLeapYear y"
      using True by (simp add: MonthFirst_def y_def[symmetric] m_def[symmetric] MonthStart_def)
    ultimately show ?thesis
      by (simp add: InLeapYear_def DaysInYear_def)
  next
    case False
    then have m': "m + 1 \<noteq> 12" by simp
    have d: "(n + 1) div 12 = y" and r: "(n + 1) mod 12 = m + 1"
      using div_step[of 12 n] mod_step[of 12 n] m' by (simp_all add: y_def m_def)
    have cases: "m = 0 \<or> m = 1 \<or> m = 2 \<or> m = 3 \<or> m = 4 \<or> m = 5 \<or> m = 6 \<or> m = 7
       \<or> m = 8 \<or> m = 9 \<or> m = 10"
      using m False by arith
    have "MonthStart (InLeapYear y) m + 28 \<le> MonthStart (InLeapYear y) (m + 1)
       \<and> MonthStart (InLeapYear y) (m + 1) \<le> MonthStart (InLeapYear y) m + 31"
      using cases l by (auto simp: MonthStart_def)
    then show ?thesis
      by (simp add: MonthFirst_def d r y_def[symmetric] m_def[symmetric])
  qed
  show "MonthFirst n + 28 \<le> MonthFirst (n + 1)" using both by simp
  show "MonthFirst (n + 1) \<le> MonthFirst n + 31" using both by simp
qed

lemma MonthFromDay_range: "0 \<le> MonthFromDay d \<and> MonthFromDay d \<le> 11"
  by (simp add: MonthFromDay_def Let_def)

text \<open>
  A day is the \<open>DateFromDay\<close>-th day of the month \<open>MonthFromDay\<close> of the year
  \<open>YearFromDay\<close>, lies before the first day of the following month, and is a day of
  that month.
\<close>

lemma civil_of_day:
  fixes d :: int
  defines "n \<equiv> 12 * YearFromDay d + MonthFromDay d"
  shows "MonthFirst n + DateFromDay d - 1 = d"
    and "1 \<le> DateFromDay d"
    and "d < MonthFirst (n + 1)"
    and "DateFromDay d \<le> MonthStart (InLeapYear (YearFromDay d)) (MonthFromDay d + 1)
                         - MonthStart (InLeapYear (YearFromDay d)) (MonthFromDay d)"
proof -
  define y where "y = YearFromDay d"
  define w where "w = d - DayFromYear y"
  define l where "l = InLeapYear y"
  define m where "m = MonthFromDay d"
  have w: "0 \<le> w" "w < 365 + l"
    using YearFromDay_bounds[of d] DayFromYear_Suc[of y]
    by (auto simp: y_def w_def l_def InLeapYear_def DaysInYear_def)
  have l: "l = 0 \<or> l = 1" by (simp add: l_def InLeapYear_def)
  have m: "0 \<le> m" "m \<le> 11" using MonthFromDay_range[of d] by (simp_all add: m_def)
  have nd: "n div 12 = y" and nm: "n mod 12 = m"
    using m by (simp_all add: n_def y_def m_def)
  have mdef: "m = (if w < 31 then 0 else if w < 59 + l then 1 else if w < 90 + l then 2
     else if w < 120 + l then 3 else if w < 151 + l then 4 else if w < 181 + l then 5
     else if w < 212 + l then 6 else if w < 243 + l then 7 else if w < 273 + l then 8
     else if w < 304 + l then 9 else if w < 334 + l then 10 else 11)"
    by (simp add: m_def MonthFromDay_def Let_def y_def w_def l_def)
  have within: "MonthStart l m \<le> w \<and> w < MonthStart l (m + 1)"
    using w l unfolding mdef by (auto simp: MonthStart_def)
  have first: "MonthFirst n = DayFromYear y + MonthStart l m"
    by (simp add: MonthFirst_def nd nm l_def)
  have date: "DateFromDay d = w - MonthStart l m + 1"
    by (simp add: DateFromDay_def Let_def y_def w_def l_def m_def)
  show "MonthFirst n + DateFromDay d - 1 = d"
    by (simp add: first date w_def)
  show "1 \<le> DateFromDay d"
    using within by (simp add: date)
  show "DateFromDay d \<le> MonthStart (InLeapYear (YearFromDay d)) (MonthFromDay d + 1)
                         - MonthStart (InLeapYear (YearFromDay d)) (MonthFromDay d)"
    using within by (simp add: date l_def y_def m_def)
  show "d < MonthFirst (n + 1)"
  proof (cases "m = 11")
    case True
    have d: "(n + 1) div 12 = y + 1" and r: "(n + 1) mod 12 = 0"
      using div_step[of 12 n] mod_step[of 12 n] True nd nm by simp_all
    have "MonthFirst (n + 1) = DayFromYear (y + 1)"
      by (simp add: MonthFirst_def d r MonthStart_def)
    then show ?thesis using YearFromDay_bounds(2)[of d] by (simp add: y_def)
  next
    case False
    then have m': "m + 1 \<noteq> 12" by simp
    have d: "(n + 1) div 12 = y" and r: "(n + 1) mod 12 = m + 1"
      using div_step[of 12 n] mod_step[of 12 n] m' nd nm by simp_all
    have "MonthFirst (n + 1) = DayFromYear y + MonthStart l (m + 1)"
      by (simp add: MonthFirst_def d r l_def)
    then show ?thesis using within by (simp add: w_def)
  qed
qed

section \<open>Dates\<close>

lemma ToInteger_of_int: "ToInteger (of_int k) = k"
  by (simp add: ToInteger_def)

lemma time_split: "Day t * msPerDay + TimeWithinDay t = t"
  by (simp add: Day_def TimeWithinDay_def)

lemma Day_add_days: "Day (t + k * msPerDay) = Day t + k"
  by (simp add: Day_def msPerDay_def)

lemma MakeDay_local:
  "MakeDay (YearFromDay d) (MonthFromDay d) x = d + (x - DateFromDay d)"
  using civil_of_day(1)[of d] by (simp add: MakeDay_MonthFirst)

text \<open>The setters move the local time by whole days.\<close>

lemma setDate_days:
  "setDate tz t dt = localDaysLater tz t (ToInteger dt - getDate tz t)"
proof -
  define lt where "lt = LocalTime tz t"
  have "MakeDate (Day lt + (ToInteger dt - DateFromDay (Day lt))) (TimeWithinDay lt)
      = lt + (ToInteger dt - DateFromDay (Day lt)) * msPerDay"
    using time_split[of lt] by (simp add: MakeDate_def algebra_simps)
  then show ?thesis
    by (simp add: setDate_def Let_def MakeDay_local getDate_def localDaysLater_def
        lt_def[symmetric])
qed

lemma setMonth_days:
  "setMonth tz t mo =
     localDaysLater tz t (MonthFirst (12 * getFullYear tz t + ToInteger mo)
                          - MonthFirst (12 * getFullYear tz t + getMonth tz t))"
proof -
  define lt where "lt = LocalTime tz t"
  define d where "d = Day lt"
  have m: "MakeDay (YearFromDay d) (ToInteger mo) (DateFromDay d)
      = d + (MonthFirst (12 * YearFromDay d + ToInteger mo)
             - MonthFirst (12 * YearFromDay d + MonthFromDay d))"
    using civil_of_day(1)[of d] by (simp add: MakeDay_MonthFirst)
  have "MakeDate (d + k) (TimeWithinDay lt) = lt + k * msPerDay" for k
    using time_split[of lt] by (simp add: MakeDate_def algebra_simps d_def)
  then show ?thesis
    by (simp add: setMonth_def Let_def m getFullYear_def getMonth_def localDaysLater_def
        lt_def[symmetric] d_def[symmetric])
qed

lemma setFullYear_days:
  "setFullYear tz t yr =
     localDaysLater tz t (MonthFirst (12 * ToInteger yr + getMonth tz t)
                          - MonthFirst (12 * getFullYear tz t + getMonth tz t))"
proof -
  define lt where "lt = LocalTime tz t"
  define d where "d = Day lt"
  have m: "MakeDay (ToInteger yr) (MonthFromDay d) (DateFromDay d)
      = d + (MonthFirst (12 * ToInteger yr + MonthFromDay d)
             - MonthFirst (12 * YearFromDay d + MonthFromDay d))"
    using civil_of_day(1)[of d] by (simp add: MakeDay_MonthFirst)
  have "MakeDate (d + k) (TimeWithinDay lt) = lt + k * msPerDay" for k
    using time_split[of lt] by (simp add: MakeDate_def algebra_simps d_def)
  then show ?thesis
    by (simp add: setFullYear_def Let_def m getFullYear_def getMonth_def localDaysLater_def
        lt_def[symmetric] d_def[symmetric])
qed

lemma MonthFirst_add:
  "MonthFirst n + 28 * int k \<le> MonthFirst (n + int k) \<and> MonthFirst (n + int k) \<le> MonthFirst n + 31 * int k"
proof (induction k)
  case 0
  show ?case by simp
next
  case (Suc k)
  have "n + int (Suc k) = (n + int k) + 1" by simp
  then show ?case
    using Suc MonthFirst_step[of "n + int k"] by (simp add: algebra_simps)
qed

lemma MonthFirst_mono: "m \<le> n \<Longrightarrow> MonthFirst m \<le> MonthFirst n"
  using MonthFirst_add[of m "nat (n - m)"] by simp

lemma MonthFirst_less: "MonthFirst m < MonthFirst n \<Longrightarrow> m < n"
  using MonthFirst_mono[of n m] by (cases "m < n") simp_all

lemma dateNumber_toISODate:
  "dateNumber (YearFromDay d, MonthFromDay d + 1, DateFromDay d) = d"
  using civil_of_day(1)[of d] by (simp add: dateNumber_def MakeDay_MonthFirst)

lemma WeekDay_add: "WeekDay (d + k) = (WeekDay d + k) mod 7"
  by (simp add: WeekDay_def mod_simps algebra_simps)

lemma WeekDay_range: "0 \<le> WeekDay d \<and> WeekDay d \<le> 6"
  by (simp add: WeekDay_def) 

lemma isInteger_cases: "isInteger q \<Longrightarrow> \<exists>k. q = of_int k"
  by (metis isInteger_def)

lemma ToInteger_add1: "ToInteger (of_int a + of_int b) = a + b"
  using ToInteger_of_int[of "a + b"] by simp

lemma ToInteger_add2: "ToInteger (of_int a + of_int b * 7) = a + b * 7"
  using ToInteger_of_int[of "a + b * 7"] by simp

lemma ToInteger_add3: "ToInteger (of_int a + 1) = a + 1" "ToInteger (of_int a + 7) = a + 7"
  using ToInteger_of_int[of "a + 1"] ToInteger_of_int[of "a + 7"] by simp_all

text \<open>Months and years ahead, in days.\<close>

lemma months_ahead:
  "1 \<le> i \<Longrightarrow> i \<le> 1188 \<Longrightarrow> 1 \<le> MonthFirst (n + i) - MonthFirst n \<and> MonthFirst (n + i) - MonthFirst n \<le> 36828"
  using MonthFirst_add[of n "nat i"] by simp

text \<open>
  A legacy pattern moves the local time of the base by a number of days from 1 to
  36828.
\<close>

lemma legacy_advances:
  "\<exists>k. 1 \<le> k \<and> k \<le> 36828 \<and>
       calculateLegacyNextDeadline tz (Some t) p = toISODate (localDaysLater tz t k)"
proof (cases p)
  case Daily
  have "setDate tz t (of_int (getDate tz t) + 1) = localDaysLater tz t 1"
    by (simp add: setDate_days ToInteger_add3)
  then show ?thesis
    unfolding calculateLegacyNextDeadline_def Daily by (intro exI[of _ 1]) simp
next
  case Weekly
  have "setDate tz t (of_int (getDate tz t) + 7) = localDaysLater tz t 7"
    by (simp add: setDate_days ToInteger_add3)
  then show ?thesis
    unfolding calculateLegacyNextDeadline_def Weekly by (intro exI[of _ 7]) simp
next
  case Monthly
  define n where "n = 12 * getFullYear tz t + getMonth tz t"
  define k where "k = MonthFirst (n + 1) - MonthFirst n"
  have k: "1 \<le> k" "k \<le> 36828" using months_ahead[of 1 n] by (simp_all add: k_def)
  have "setMonth tz t (of_int (getMonth tz t) + 1) = localDaysLater tz t k"
    by (simp add: setMonth_days ToInteger_add3 k_def n_def add.assoc)
  then show ?thesis
    unfolding calculateLegacyNextDeadline_def Monthly using k by (intro exI[of _ k]) simp
next
  case Yearly
  define n where "n = 12 * getFullYear tz t + getMonth tz t"
  define k where "k = MonthFirst (n + 12) - MonthFirst n"
  have k: "1 \<le> k" "k \<le> 36828" using months_ahead[of 12 n] by (simp_all add: k_def)
  have n12: "12 * (getFullYear tz t + 1) + getMonth tz t = n + 12"
    by (simp add: n_def)
  have "setFullYear tz t (of_int (getFullYear tz t) + 1) = localDaysLater tz t k"
    unfolding setFullYear_days ToInteger_add3 n12 by (simp add: k_def n_def)
  then show ?thesis
    unfolding calculateLegacyNextDeadline_def Yearly using k by (intro exI[of _ k]) simp
qed

lemma find_sorted:
  "sorted l \<Longrightarrow>
   find (\<lambda>d. c < d) l = (if filter (\<lambda>d. c < d) l = [] then None
                           else Some (Min (set (filter (\<lambda>d. c < d) l))))"
  for l :: "'a::linorder list"
proof (induction l)
  case Nil
  show ?case by simp
next
  case (Cons x xs)
  show ?case
  proof (cases "c < x")
    case True
    have "Min (set (filter (\<lambda>d. c < d) (x # xs))) = x"
      using Cons.prems True by (intro Min_eqI) auto
    then show ?thesis using True by simp
  next
    case False
    then show ?thesis using Cons by simp
  qed
qed

lemma hd_sorted: "sorted l \<Longrightarrow> l = x # xs \<Longrightarrow> x = Min (set l)"
  for l :: "'a::linorder list"
  by (auto intro!: Min_eqI[symmetric])

lemma Min_of_int: "finite S \<Longrightarrow> S \<noteq> {} \<Longrightarrow> Min (rat_of_int ` S) = of_int (Min S)"
  by (rule mono_Min_commute[symmetric]) (auto simp: mono_def)

lemma specDaysToAdd_range:
  assumes "ds \<noteq> []" "\<forall>d\<in>set ds. 0 \<le> d \<and> d \<le> 6" "0 \<le> c" "c \<le> 6" "1 \<le> n" "n \<le> 99"
  shows "1 \<le> specDaysToAdd c n ds \<and> specDaysToAdd c n ds \<le> 699"
proof -
  define later where "later = filter (\<lambda>d. c < d) ds"
  have m0: "Min (set ds) \<in> set ds" using assms(1) by (intro Min_in) simp_all
  then have m0r: "0 \<le> Min (set ds)" "Min (set ds) \<le> 6" using assms(2) by auto
  show ?thesis
  proof (cases "n = 1 \<and> later \<noteq> []")
    case True
    define m where "m = Min (set later)"
    have "m \<in> set later" unfolding m_def using True by (intro Min_in) simp_all
    then have "c < m" "m \<le> 6"
      using assms(2) by (auto simp: later_def)
    moreover have "specDaysToAdd c n ds = m - c"
      using True by (simp add: specDaysToAdd_def Let_def later_def[symmetric] m_def)
    ultimately show ?thesis using assms(3) by linarith
  next
    case False
    then have "specDaysToAdd c n ds = (7 - c + Min (set ds)) + (n - 1) * 7"
      by (auto simp: specDaysToAdd_def Let_def later_def[symmetric])
    then show ?thesis using m0r assms(3-6) by simp
  qed
qed

lemma getDay_range: "0 \<le> getDay tz t \<and> getDay tz t \<le> 6"
  by (simp add: getDay_def WeekDay_range)

text \<open>
  With selected week days the routine moves the local time of the base by
  \<open>specDaysToAdd\<close> days, counted from the week day of the base in local time.
\<close>

lemma findNextWeekdayOccurrence_days:
  assumes ds: "ds \<noteq> []" "\<forall>d\<in>set ds. 0 \<le> d \<and> d \<le> 6"
  shows "findNextWeekdayOccurrence tz (Some t) (of_int n) (map of_int ds)
         = toISODate (localDaysLater tz t (specDaysToAdd (getDay tz t) n ds))"
proof -
  define c where "c = getDay tz t"
  define l where "l = sort (map rat_of_int ds)"
  define later where "later = filter (\<lambda>d. c < d) ds"
  define k where "k = specDaysToAdd c n ds"
  have sl: "sorted l" and setl: "set l = of_int ` set ds" by (simp_all add: l_def)
  have fl: "filter (\<lambda>d. rat_of_int c < d) l = [] \<longleftrightarrow> later = []"
  proof -
    have "set (filter (\<lambda>d. rat_of_int c < d) l) = of_int ` set later"
      by (auto simp: setl later_def)
    then show ?thesis by (metis image_is_empty set_empty)
  qed
  have minl: "later \<noteq> [] \<Longrightarrow> Min (set (filter (\<lambda>d. rat_of_int c < d) l)) = of_int (Min (set later))"
  proof -
    assume ne: "later \<noteq> []"
    have "set (filter (\<lambda>d. rat_of_int c < d) l) = of_int ` set later"
      by (auto simp: setl later_def)
    then show ?thesis using Min_of_int[of "set later"] ne by simp
  qed
  have found: "find (\<lambda>d. rat_of_int c < d) l
      = (if later = [] then None else Some (of_int (Min (set later))))"
    using find_sorted[OF sl, of "of_int c"] fl minl by auto
  have lne: "l \<noteq> []" using ds(1) setl by auto
  then obtain s0 rest where l0: "l = s0 # rest" by (cases l) auto
  have s0: "s0 = of_int (Min (set ds))"
    using hd_sorted[OF sl l0] Min_of_int[of "set ds"] ds(1) by (simp add: setl)
  define f where "f = find (\<lambda>d. rat_of_int c < d) l"
  have unfold: "findNextWeekdayOccurrence tz (Some t) (of_int n) (map of_int ds)
      = (if f \<noteq> None \<and> rat_of_int n = 1
         then toISODate (setDate tz t (of_int (getDate tz t) + (the f - of_int c)))
         else (case l of
                 [] \<Rightarrow> toISODate None
               | s0 # _ \<Rightarrow>
                   toISODate (setDate tz t
                     (of_int (getDate tz t) + (7 - of_int c + s0) + (of_int n - 1) * 7))))"
    by (simp add: findNextWeekdayOccurrence_def Let_def c_def l_def f_def split: list.splits)
  have f: "f = (if later = [] then None else Some (of_int (Min (set later))))"
    using found by (simp add: f_def)
  have "findNextWeekdayOccurrence tz (Some t) (of_int n) (map of_int ds)
         = toISODate (localDaysLater tz t k)"
  proof (cases "n = 1 \<and> later \<noteq> []")
    case True
    have kk: "k = Min (set later) - c"
      using True by (simp add: k_def specDaysToAdd_def Let_def later_def[symmetric])
    have arg: "rat_of_int (getDate tz t) + (of_int (Min (set later)) - of_int c)
        = of_int (getDate tz t + k)"
      by (simp add: kk)
    have "setDate tz t (rat_of_int (getDate tz t) + (of_int (Min (set later)) - of_int c))
        = localDaysLater tz t k"
      unfolding arg setDate_days ToInteger_of_int by simp
    then show ?thesis
      unfolding unfold using True by (simp add: f)
  next
    case False
    have kk: "k = (7 - c + Min (set ds)) + (n - 1) * 7"
      using False by (auto simp: k_def specDaysToAdd_def Let_def later_def[symmetric])
    have arg: "rat_of_int (getDate tz t) + (7 - of_int c + s0) + (of_int n - 1) * 7
        = of_int (getDate tz t + k)"
      by (simp add: kk s0)
    have sd: "setDate tz t (rat_of_int (getDate tz t) + (7 - of_int c + s0) + (of_int n - 1) * 7)
        = localDaysLater tz t k"
      unfolding arg setDate_days ToInteger_of_int by simp
    have cond: "\<not> (f \<noteq> None \<and> rat_of_int n = 1)"
      using False by (auto simp: f)
    show ?thesis
      unfolding unfold if_not_P[OF cond] l0 list.case sd by (rule refl)
  qed
  then show ?thesis by (simp add: k_def c_def)
qed

lemma MonthFirst_values:
  "MonthFirst 0 = - 719528" "MonthFirst 1200 = - 683003"
  "MonthFirst 22800 = - 25567" "MonthFirst 24000 = 10957"
  by (simp_all add: MonthFirst_def DayFromYear_def InLeapYear_def DaysInYear_def MonthStart_def)

text \<open>The first day of the month of a day.\<close>

lemma month_of_day:
  fixes d :: int
  defines "n \<equiv> 12 * YearFromDay d + MonthFromDay d"
  shows "MonthFirst n \<le> d" "d < MonthFirst (n + 1)" "d \<le> MonthFirst n + 30"
proof -
  show "MonthFirst n \<le> d"
    using civil_of_day(1,2)[of d] by (simp add: n_def)
  show lt: "d < MonthFirst (n + 1)"
    using civil_of_day(3)[of d] by (simp add: n_def)
  show "d \<le> MonthFirst n + 30"
    using lt MonthFirst_step(2)[of n] by simp
qed

lemma getDate_range: "1 \<le> getDate tz t \<and> getDate tz t \<le> 31"
  using civil_of_day(1,2)[of "Day (LocalTime tz t)"] month_of_day(3)[of "Day (LocalTime tz t)"]
  by (simp add: getDate_def)

lemma ToInteger_between: "1 \<le> q \<Longrightarrow> q \<le> 31 \<Longrightarrow> 1 \<le> ToInteger q \<and> ToInteger q \<le> 31"
  by (simp add: ToInteger_def le_floor_iff floor_le_iff)

lemma weekdays_as_ints:
  "list_all (\<lambda>d. isInteger d \<and> 0 \<le> d \<and> d \<le> 6) l \<Longrightarrow>
   \<exists>ds. l = map rat_of_int ds \<and> (\<forall>d\<in>set ds. 0 \<le> d \<and> d \<le> 6)"
proof (induction l)
  case Nil
  show ?case by simp
next
  case (Cons x xs)
  then obtain ds where ds: "xs = map rat_of_int ds" "\<forall>d\<in>set ds. 0 \<le> d \<and> d \<le> 6"
    by auto
  obtain k where k: "x = of_int k" using Cons.prems isInteger_cases by auto
  then have "0 \<le> k \<and> k \<le> 6" using Cons.prems by simp
  then have "x # xs = map rat_of_int (k # ds) \<and> (\<forall>d\<in>set (k # ds). 0 \<le> d \<and> d \<le> 6)"
    using ds k by simp
  then show ?case by (rule exI[of _ "k # ds"])
qed

text \<open>
  A flexible recurrence of the data model, other than unit month with a month day,
  moves the local time of the base by a number of days from 1 to 36828.
\<close>

lemma flexible_advances:
  assumes c: "wellFormedConfig c" and plain: "unit c \<noteq> MonthUnit \<or> monthDay c = None"
  shows "\<exists>k. 1 \<le> k \<and> k \<le> 36828 \<and>
           calculateFlexibleNextDeadline tz (Some t) c = toISODate (localDaysLater tz t k)"
proof -
  obtain i where i: "interval c = of_int i" "1 \<le> i" "i \<le> 99"
    using c isInteger_cases[of "interval c"] by (auto simp: wellFormedConfig_def)
  define n where "n = 12 * getFullYear tz t + getMonth tz t"
  show ?thesis
  proof (cases "unit c")
    case DayUnit
    have "setDate tz t (of_int (getDate tz t) + interval c) = localDaysLater tz t i"
      using i by (simp add: setDate_days ToInteger_add1)
    then show ?thesis
      using i by (intro exI[of _ i]) (simp add: calculateFlexibleNextDeadline_def DayUnit)
  next
    case YearUnit
    define k where "k = MonthFirst (n + 12 * i) - MonthFirst n"
    have k: "1 \<le> k" "k \<le> 36828" using months_ahead[of "12 * i" n] i by (simp_all add: k_def)
    have n12: "12 * (getFullYear tz t + i) + getMonth tz t = n + 12 * i"
      by (simp add: n_def)
    have "setFullYear tz t (of_int (getFullYear tz t) + interval c) = localDaysLater tz t k"
      unfolding setFullYear_days i(1) ToInteger_add1 n12 by (simp add: k_def n_def)
    then show ?thesis
      using k by (intro exI[of _ k]) (simp add: calculateFlexibleNextDeadline_def YearUnit)
  next
    case MonthUnit
    then have md: "monthDay c = None" using plain by simp
    define k1 where "k1 = MonthFirst (n + i) - MonthFirst n"
    have k1: "1 \<le> k1" "k1 \<le> 36828" using months_ahead[of i n] i by (simp_all add: k1_def)
    have ni: "12 * getFullYear tz t + (getMonth tz t + i) = n + i"
      by (simp add: n_def)
    have sm: "setMonth tz t (of_int (getMonth tz t) + interval c) = localDaysLater tz t k1"
      unfolding setMonth_days i(1) ToInteger_add1 ni by (simp add: k1_def n_def)
    show ?thesis
      using k1 sm md
      by (intro exI[of _ k1]) (simp add: calculateFlexibleNextDeadline_def MonthUnit Let_def)
  next
    case WeekUnit
    have plain: "\<exists>k. 1 \<le> k \<and> k \<le> 36828 \<and>
        toISODate (setDate tz t (of_int (getDate tz t) + interval c * 7))
          = toISODate (localDaysLater tz t k)"
    proof -
      have "setDate tz t (of_int (getDate tz t) + interval c * 7) = localDaysLater tz t (i * 7)"
        using i by (simp add: setDate_days ToInteger_add2)
      then show ?thesis using i by (intro exI[of _ "i * 7"]) simp
    qed
    show ?thesis
    proof (cases "weekDays c")
      case None
      then show ?thesis
        using plain by (simp add: calculateFlexibleNextDeadline_def WeekUnit)
    next
      case (Some l)
      show ?thesis
      proof (cases l)
        case Nil
        then show ?thesis
          using plain Some by (simp add: calculateFlexibleNextDeadline_def WeekUnit)
      next
        case (Cons w ws)
        have "list_all (\<lambda>d. isInteger d \<and> 0 \<le> d \<and> d \<le> 6) l"
          using c Some by (simp add: wellFormedConfig_def)
        then obtain ds where ds: "l = map rat_of_int ds" "\<forall>d\<in>set ds. 0 \<le> d \<and> d \<le> 6"
          using weekdays_as_ints by blast
        have ne: "ds \<noteq> []" using ds(1) Cons by auto
        define k where "k = specDaysToAdd (getDay tz t) i ds"
        have k: "1 \<le> k" "k \<le> 699"
          using specDaysToAdd_range[OF ne ds(2) _ _ i(2,3), of "getDay tz t"] getDay_range[of tz t]
          by (simp_all add: k_def)
        have "findNextWeekdayOccurrence tz (Some t) (interval c) l
            = toISODate (localDaysLater tz t k)"
          unfolding i(1) ds(1) k_def
          by (rule findNextWeekdayOccurrence_days[OF ne ds(2)])
        then show ?thesis
          using k Some Cons
          by (intro exI[of _ k]) (simp add: calculateFlexibleNextDeadline_def WeekUnit)
      qed
    qed
  qed
qed

text \<open>
  Unit month with a month day: the months are added first, and the day of the month is
  set in the month that this reaches.
\<close>

lemma flexible_month_day:
  fixes tz :: TimeZone and t :: int
  assumes "interval c = of_int i" "unit c = MonthUnit" "monthDay c = Some md"
  defines "n \<equiv> 12 * getFullYear tz t + getMonth tz t"
  shows "calculateFlexibleNextDeadline tz (Some t) c =
     (case localDaysLater tz t (MonthFirst (n + i) - MonthFirst n) of
        None \<Rightarrow> Inl RangeError
      | Some u \<Rightarrow>
          (case getDaysInMonth tz (Some u) of
             None \<Rightarrow> Inl RangeError
           | Some g \<Rightarrow>
               toISODate (localDaysLater tz u (ToInteger (min md (of_int g)) - getDate tz u))))"
proof -
  have ni: "12 * getFullYear tz t + (getMonth tz t + i) = n + i"
    by (simp add: n_def)
  have sm: "setMonth tz t (of_int (getMonth tz t) + interval c)
      = localDaysLater tz t (MonthFirst (n + i) - MonthFirst n)"
    unfolding setMonth_days assms(1) ToInteger_add1 ni by (simp add: n_def)
  show ?thesis
    unfolding calculateFlexibleNextDeadline_def
    by (simp add: assms(2,3) sm Let_def setDate_days toISODate_def
        split: option.splits)
qed

lemma MonthFirst_120000: "MonthFirst 120000 = 2932897"
  by (simp add: MonthFirst_def DayFromYear_def InLeapYear_def DaysInYear_def MonthStart_def)

lemma newDateParse_valid:
  assumes "validDateString s"
  shows "\<exists>t. newDateParse s = Some t \<and> awayFromLimits t"
proof -
  obtain y m d where s: "s = (y, m, d)" by (cases s) auto
  have v: "0 \<le> y" "y \<le> 9999" "1 \<le> m" "m \<le> 12" "1 \<le> d"
    "d \<le> MonthStart (InLeapYear y) m - MonthStart (InLeapYear y) (m - 1)"
    using assms by (simp_all add: s validDateString_def)
  define n where "n = 12 * y + (m - 1)"
  define dy where "dy = MakeDay y (m - 1) d"
  have n: "0 \<le> n" "n \<le> 120000" using v by (simp_all add: n_def)
  have "MonthFirst 0 \<le> MonthFirst n" "MonthFirst n \<le> MonthFirst 120000"
    using n by (intro MonthFirst_mono; simp)+
  then have f: "- 719528 \<le> MonthFirst n" "MonthFirst n \<le> 2932897"
    by (simp_all add: MonthFirst_values MonthFirst_120000)
  have "d \<le> 31" using v(3,4,6) by (auto simp: MonthStart_def InLeapYear_def split: if_splits)
  then have dy: "- 719528 \<le> dy" "dy \<le> 2932927"
    using f v(5) by (simp_all add: dy_def MakeDay_MonthFirst n_def)
  then have "\<bar>dy * msPerDay\<bar> \<le> 2932927 * msPerDay"
    by (simp add: msPerDay_def abs_le_iff)
  then have a: "awayFromLimits (dy * msPerDay)"
    by (simp add: awayFromLimits_def msPerDay_def maxTime_def)
  then have "newDateParse s = Some (dy * msPerDay)"
    using assms
    by (simp add: s newDateParse_def MakeDate_def TimeClip_def awayFromLimits_def dy_def
        msPerDay_def maxTime_def)
  then show ?thesis using a by simp
qed

lemma baseDateOf_valid:
  assumes "wellFormedDeadline dl" "awayFromLimits now"
  shows "\<exists>t. baseDateOf now dl = Some t \<and> awayFromLimits t"
  using assms newDateParse_valid
  by (cases dl) (auto simp: baseDateOf_def wellFormedDeadline_def)

subsection \<open>Hosts whose offsets stay within a day\<close>

lemma zone_offsets:
  assumes "boundedZone tz"
  shows "\<bar>LocalTime tz t - t\<bar> \<le> msPerDay" "\<bar>UTC tz l - l\<bar> \<le> msPerDay"
proof -
  have "\<bar>offsetAtUTC tz t\<bar> \<le> msPerDay" "\<bar>offsetAtLocal tz l\<bar> \<le> msPerDay"
    using assms by (simp_all add: boundedZone_def)
  then show "\<bar>LocalTime tz t - t\<bar> \<le> msPerDay" "\<bar>UTC tz l - l\<bar> \<le> msPerDay"
    by (simp_all add: LocalTime_def UTC_def)
qed


lemma getDaysInMonth_valid:
  assumes z: "boundedZone tz" and t0: "awayFromLimits t0"
    and u: "\<bar>u - t0\<bar> \<le> 900000 * msPerDay"
  shows "\<exists>g. getDaysInMonth tz (Some u) = Some g \<and> 1 \<le> g"
proof -
  define lt where "lt = LocalTime tz u"
  define d where "d = Day lt"
  define y m where "y = YearFromDay d" and "m = MonthFromDay d"
  define n where "n = 12 * y + m"
  define yr where "yr = (if 0 \<le> y \<and> y \<le> 99 then 1900 + y else y)"
  define e where "e = MakeDay yr (m + 1) 0"
  define v where "v = UTC tz (e * msPerDay)"
  have m: "0 \<le> m" "m \<le> 11" using MonthFromDay_range[of d] by (simp_all add: m_def)
  have dn: "MonthFirst n \<le> d" "d < MonthFirst (n + 1)" "d \<le> MonthFirst n + 30"
    using month_of_day[of d] by (simp_all add: n_def y_def m_def)
  have du: "d * msPerDay \<le> lt" "lt < d * msPerDay + msPerDay"
    using div_bounds[of msPerDay lt] by (simp_all add: d_def Day_def msPerDay_def mult.commute)
  have lu: "\<bar>lt - u\<bar> \<le> msPerDay" using zone_offsets(1)[OF z] by (simp add: lt_def)
  have ve: "\<bar>v - e * msPerDay\<bar> \<le> msPerDay" using zone_offsets(2)[OF z] by (simp add: v_def)
  have E: "e = MonthFirst (12 * yr + m + 1) - 1"
    by (simp add: e_def MakeDay_MonthFirst add.assoc)
  have "\<bar>v\<bar> \<le> maxTime"
  proof (cases "0 \<le> y \<and> y \<le> 99")
    case False
    then have "yr = y" by (auto simp: yr_def)
    then have "e = MonthFirst (n + 1) - 1" by (simp add: E n_def)
    then have "d \<le> e" "e \<le> d + 30"
      using dn MonthFirst_step(2)[of n] by simp_all
    then have "d * msPerDay \<le> e * msPerDay" "e * msPerDay \<le> d * msPerDay + 30 * msPerDay"
      by (simp_all add: msPerDay_def)
    then show ?thesis
      using du lu ve u t0 unfolding awayFromLimits_def msPerDay_def maxTime_def by linarith
  next
    case True
    then have "yr = 1900 + y" by (simp add: yr_def)
    then have i: "22800 \<le> 12 * yr + m + 1" "12 * yr + m + 1 \<le> 24000"
      using True m by simp_all
    have "MonthFirst 22800 \<le> MonthFirst (12 * yr + m + 1)"
      "MonthFirst (12 * yr + m + 1) \<le> MonthFirst 24000"
      using i by (intro MonthFirst_mono; simp)+
    then have e: "- 25568 \<le> e" "e \<le> 10956"
      by (simp_all add: E MonthFirst_values)
    then have "- 25568 * msPerDay \<le> e * msPerDay" "e * msPerDay \<le> 10956 * msPerDay"
      by (simp_all add: msPerDay_def)
    then show ?thesis
      using ve unfolding msPerDay_def maxTime_def by linarith
  qed
  then have "newDateLocal tz y (m + 1) 0 = Some v"
    by (simp add: newDateLocal_def Let_def yr_def[symmetric] e_def[symmetric] TimeClip_def
        MakeDate_def v_def)
  then have "getDaysInMonth tz (Some u) = Some (getDate tz v)"
    by (simp add: getDaysInMonth_def getFullYear_def getMonth_def lt_def[symmetric]
        d_def[symmetric] y_def[symmetric] m_def[symmetric])
  then show ?thesis using getDate_range[of tz v] by simp
qed







lemma wellFormed_validated: "wellFormed r \<Longrightarrow> validated r"
proof (cases r)
  case (Flexible c)
  assume "wellFormed r"
  then have w: "wellFormedConfig c" by (simp add: Flexible wellFormed_def)
  have "list_all (\<lambda>d. 0 \<le> d \<and> d \<le> 6) l"
    if "list_all (\<lambda>d. isInteger d \<and> 0 \<le> d \<and> d \<le> 6) l" for l :: "rat list"
    using that by (simp add: list_all_iff)
  then show ?thesis
    using w by (simp add: Flexible validated_def validatedConfig_def wellFormedConfig_def
        split: option.splits)
qed (simp_all add: wellFormed_def validated_def)

text \<open>The base is an Invalid Date exactly for a deadline that is not a calendar date.\<close>

lemma baseDateOf_invalid: "baseDateOf now dl = None \<longleftrightarrow> \<not> wellFormedDeadline dl"
proof (cases dl)
  case None
  then show ?thesis by (simp add: baseDateOf_def wellFormedDeadline_def)
next
  case (Some s)
  show ?thesis
  proof (cases "validDateString s")
    case True
    then show ?thesis
      using newDateParse_valid[of s] by (auto simp: Some baseDateOf_def wellFormedDeadline_def)
  next
    case False
    then show ?thesis
      by (cases s) (simp add: Some baseDateOf_def wellFormedDeadline_def newDateParse_def)
  qed
qed





subsection \<open>Hosts with a constant offset\<close>

lemma LocalTime_fixed: "LocalTime (fixedZone c) t = t + c"
  by (simp add: LocalTime_def fixedZone_def)

lemma UTC_fixed: "UTC (fixedZone c) l = l - c"
  by (simp add: UTC_def fixedZone_def)

lemma boundedZone_fixed: "\<bar>c\<bar> \<le> msPerDay \<Longrightarrow> boundedZone (fixedZone c)"
  by (simp add: boundedZone_def fixedZone_def)

text \<open>With a constant offset, a move of the local time by \<open>k\<close> days moves the time value by \<open>k\<close> days.\<close>

lemma localDaysLater_fixed:
  "localDaysLater (fixedZone c) t k = TimeClip (t + k * msPerDay)"
  by (simp add: localDaysLater_def LocalTime_fixed UTC_fixed)

lemma TimeClip_days:
  "awayFromLimits t \<Longrightarrow> \<bar>k\<bar> \<le> 1000000 \<Longrightarrow> TimeClip (t + k * msPerDay) = Some (t + k * msPerDay)"
proof -
  assume a: "awayFromLimits t" and k: "\<bar>k\<bar> \<le> 1000000"
  have "\<bar>k * msPerDay\<bar> \<le> 1000000 * msPerDay"
    using k by (simp add: msPerDay_def abs_mult)
  then show ?thesis using a by (simp add: TimeClip_def awayFromLimits_def)
qed

lemma month_clamp_advances:
  fixes c t i :: int
  defines "tz \<equiv> fixedZone c"
  assumes t: "awayFromLimits t" and i: "1 \<le> i" "i \<le> 99" and md: "1 \<le> md" "md \<le> 31"
    and c: "\<bar>c\<bar> \<le> msPerDay"
  defines "n \<equiv> 12 * getFullYear tz t + getMonth tz t"
  defines "k1 \<equiv> MonthFirst (n + i) - MonthFirst n"
  shows "\<exists>k g. 1 \<le> k \<and> k \<le> 3100
           \<and> localDaysLater tz t k1 = Some (t + k1 * msPerDay)
           \<and> getDaysInMonth tz (Some (t + k1 * msPerDay)) = Some g
           \<and> localDaysLater tz (t + k1 * msPerDay)
                (ToInteger (min md (of_int g)) - getDate tz (t + k1 * msPerDay))
              = Some (t + k * msPerDay)"
proof -
  define u where "u = t + k1 * msPerDay"
  define L where "L = Day (LocalTime tz t)"
  define L' where "L' = Day (LocalTime tz u)"
  define n' where "n' = 12 * getFullYear tz u + getMonth tz u"
  have z: "boundedZone tz" using c by (simp add: tz_def boundedZone_fixed)
  have k1: "28 * i \<le> k1" "k1 \<le> 31 * i"
    using MonthFirst_add[of n "nat i"] i by (simp_all add: k1_def)
  have first: "localDaysLater tz t k1 = Some u"
    using TimeClip_days[OF t, of k1] k1 i by (simp add: tz_def localDaysLater_fixed u_def)
  have LL: "L' = L + k1"
    using Day_add_days[of "t + c" k1]
    by (simp add: L'_def L_def u_def tz_def LocalTime_fixed algebra_simps)
  have cL: "MonthFirst n + getDate tz t - 1 = L" "1 \<le> getDate tz t" "L < MonthFirst (n + 1)"
    using civil_of_day(1-3)[of L]
    by (simp_all add: n_def getFullYear_def getMonth_def getDate_def L_def)
  have cL': "MonthFirst n' + getDate tz u - 1 = L'" "L' < MonthFirst (n' + 1)"
    using civil_of_day(1,3)[of L']
    by (simp_all add: n'_def getFullYear_def getMonth_def getDate_def L'_def)
  have "\<bar>k1 * msPerDay\<bar> \<le> 900000 * msPerDay"
    using k1 i by (simp add: msPerDay_def abs_mult)
  then have "\<bar>u - t\<bar> \<le> 900000 * msPerDay" by (simp add: u_def)
  then obtain g where g: "getDaysInMonth tz (Some u) = Some g" "1 \<le> g"
    using getDaysInMonth_valid[OF z t] by blast
  define x where "x = ToInteger (min md (of_int g))"
  have "1 \<le> min md (rat_of_int g)" "min md (rat_of_int g) \<le> 31"
    using md g(2) by (simp_all add: min_def)
  then have x: "1 \<le> x" "x \<le> 31" using ToInteger_between by (simp_all add: x_def)
  define k where "k = k1 + (x - getDate tz u)"
  have "MonthFirst (n + i) \<le> L'"
    using cL(1,2) by (simp add: LL k1_def)
  then have "MonthFirst (n + i) < MonthFirst (n' + 1)" using cL'(2) by simp
  then have "n + i \<le> n'" using MonthFirst_less[of "n + i" "n' + 1"] by simp
  then have a: "MonthFirst (n + i) \<le> MonthFirst n'" by (rule MonthFirst_mono)
  have "n + 1 \<le> n + i" using i by simp
  then have b: "MonthFirst (n + 1) \<le> MonthFirst (n + i)" by (rule MonthFirst_mono)
  have keq: "k = MonthFirst n' + x - 1 - L"
    using cL'(1) LL by (simp add: k_def)
  have klo: "1 \<le> k" using keq a b cL(3) x by simp
  have "MonthFirst n' \<le> L'" using cL'(1) civil_of_day(2)[of L'] by (simp add: getDate_def L'_def)
  then have khi: "k \<le> 3100" using keq LL k1 x i by simp
  have "localDaysLater tz u (x - getDate tz u) = TimeClip (t + k * msPerDay)"
    by (simp add: tz_def localDaysLater_fixed u_def k_def algebra_simps)
  then have "localDaysLater tz u (x - getDate tz u) = Some (t + k * msPerDay)"
    using TimeClip_days[OF t, of k] klo khi by simp
  then show ?thesis using first g klo khi unfolding u_def x_def by blast
qed

text \<open>
  On a host with a constant offset the calculator returns the date of the base moved
  by a number of days from 1 to 36828, which is a later date.
\<close>

lemma fixed_offset_days:
  assumes "wellFormed r" "wellFormedDeadline dl" "awayFromLimits now" "\<bar>c\<bar> \<le> msPerDay"
  shows "\<exists>t k. baseDateOf now dl = Some t \<and> 1 \<le> k \<and> k \<le> 36828 \<and>
           calculateNextDeadline (fixedZone c) now dl r = toISODate (Some (t + k * msPerDay))"
proof -
  obtain t where t: "baseDateOf now dl = Some t" "awayFromLimits t"
    using baseDateOf_valid[OF assms(2,3)] by blast
  have clip: "1 \<le> k \<Longrightarrow> k \<le> 36828 \<Longrightarrow>
      localDaysLater (fixedZone c) t k = Some (t + k * msPerDay)" for k
    using TimeClip_days[OF t(2), of k] by (simp add: localDaysLater_fixed)
  show ?thesis
  proof (cases r)
    case Null
    then show ?thesis using assms(1) by (simp add: wellFormed_def)
  next
    case (Legacy p)
    obtain k where k: "1 \<le> k" "k \<le> 36828"
      and r: "calculateLegacyNextDeadline (fixedZone c) (Some t) p
                = toISODate (localDaysLater (fixedZone c) t k)"
      using legacy_advances[of "fixedZone c" t p] by blast
    show ?thesis
      using k r clip[OF k] t(1) Legacy by (auto simp: calculateNextDeadline_def)
  next
    case (Flexible cfg)
    then have w: "wellFormedConfig cfg" using assms(1) by (simp add: wellFormed_def)
    have "\<exists>k. 1 \<le> k \<and> k \<le> 36828 \<and>
        calculateFlexibleNextDeadline (fixedZone c) (Some t) cfg = toISODate (Some (t + k * msPerDay))"
    proof (cases "unit cfg \<noteq> MonthUnit \<or> monthDay cfg = None")
      case True
      obtain k where k: "1 \<le> k" "k \<le> 36828"
        and r: "calculateFlexibleNextDeadline (fixedZone c) (Some t) cfg
                  = toISODate (localDaysLater (fixedZone c) t k)"
        using flexible_advances[OF w True, of "fixedZone c" t] by blast
      show ?thesis using k r clip[OF k] by auto
    next
      case False
      then obtain md where u: "unit cfg = MonthUnit" and md: "monthDay cfg = Some md" by auto
      have mdr: "1 \<le> md" "md \<le> 31" using w md by (simp_all add: wellFormedConfig_def)
      obtain i where i: "interval cfg = of_int i" "1 \<le> i" "i \<le> 99"
        using w isInteger_cases[of "interval cfg"] by (auto simp: wellFormedConfig_def)
      obtain k g where k: "1 \<le> k" "k \<le> 3100"
        and s: "localDaysLater (fixedZone c) t
                  (MonthFirst (12 * getFullYear (fixedZone c) t + getMonth (fixedZone c) t + i)
                   - MonthFirst (12 * getFullYear (fixedZone c) t + getMonth (fixedZone c) t))
                = Some (t + (MonthFirst (12 * getFullYear (fixedZone c) t + getMonth (fixedZone c) t + i)
                   - MonthFirst (12 * getFullYear (fixedZone c) t + getMonth (fixedZone c) t)) * msPerDay)"
           "getDaysInMonth (fixedZone c)
              (Some (t + (MonthFirst (12 * getFullYear (fixedZone c) t + getMonth (fixedZone c) t + i)
                   - MonthFirst (12 * getFullYear (fixedZone c) t + getMonth (fixedZone c) t)) * msPerDay))
                = Some g"
           "localDaysLater (fixedZone c)
              (t + (MonthFirst (12 * getFullYear (fixedZone c) t + getMonth (fixedZone c) t + i)
                   - MonthFirst (12 * getFullYear (fixedZone c) t + getMonth (fixedZone c) t)) * msPerDay)
              (ToInteger (min md (of_int g))
               - getDate (fixedZone c)
                   (t + (MonthFirst (12 * getFullYear (fixedZone c) t + getMonth (fixedZone c) t + i)
                   - MonthFirst (12 * getFullYear (fixedZone c) t + getMonth (fixedZone c) t)) * msPerDay))
                = Some (t + k * msPerDay)"
        using month_clamp_advances[OF t(2) i(2,3) mdr assms(4)] by blast
      have "calculateFlexibleNextDeadline (fixedZone c) (Some t) cfg
          = toISODate (Some (t + k * msPerDay))"
        unfolding flexible_month_day[OF i(1) u md] by (simp add: s)
      then show ?thesis using k by (intro exI[of _ k]) simp
    qed
    then show ?thesis
      using t(1) Flexible by (auto simp: calculateNextDeadline_def)
  qed
qed

lemma fixed_offset_strictly_later:
  assumes "wellFormed r" "wellFormedDeadline dl" "awayFromLimits now" "\<bar>c\<bar> \<le> msPerDay"
  shows "\<exists>b res. toISODate (baseDateOf now dl) = Inr b
           \<and> calculateNextDeadline (fixedZone c) now dl r = Inr res
           \<and> dateNumber b < dateNumber res"
proof -
  obtain t k where t: "baseDateOf now dl = Some t" and k: "1 \<le> k"
    and r: "calculateNextDeadline (fixedZone c) now dl r = toISODate (Some (t + k * msPerDay))"
    using fixed_offset_days[OF assms] by blast
  define b where "b = (YearFromDay (Day t), MonthFromDay (Day t) + 1, DateFromDay (Day t))"
  define d' where "d' = Day (t + k * msPerDay)"
  define res where "res = (YearFromDay d', MonthFromDay d' + 1, DateFromDay d')"
  have "toISODate (baseDateOf now dl) = Inr b"
    by (simp add: t toISODate_def b_def)
  moreover have "calculateNextDeadline (fixedZone c) now dl r = Inr res"
    by (simp add: r toISODate_def res_def d'_def)
  moreover have "dateNumber b < dateNumber res"
    using k by (simp add: b_def res_def dateNumber_toISODate d'_def Day_add_days)
  ultimately show ?thesis by blast
qed

text \<open>
  When the base lies on the same day in local time and in UTC, the date returned for
  selected week days falls on a selected week day.
\<close>

lemma weekday_occurrence_selected_when_days_agree:
  assumes "ds \<noteq> []" "\<forall>d\<in>set ds. 0 \<le> d \<and> d \<le> 6" "1 \<le> n" "n \<le> 99" "awayFromLimits t"
    and same: "Day (LocalTime (fixedZone c) t) = Day t"
  shows "\<exists>res. findNextWeekdayOccurrence (fixedZone c) (Some t) (of_int n) (map of_int ds) = Inr res
           \<and> WeekDay (dateNumber res) \<in> set ds"
proof -
  define cur where "cur = getDay (fixedZone c) t"
  define k where "k = specDaysToAdd cur n ds"
  define later where "later = filter (\<lambda>d. cur < d) ds"
  define d' where "d' = Day (t + k * msPerDay)"
  define res where "res = (YearFromDay d', MonthFromDay d' + 1, DateFromDay d')"
  have cr: "0 \<le> cur" "cur \<le> 6" using getDay_range[of "fixedZone c" t] by (simp_all add: cur_def)
  have kr: "\<bar>k\<bar> \<le> 1000000"
    using specDaysToAdd_range[OF assms(1,2) cr assms(3,4)] by (simp add: k_def)
  have r: "findNextWeekdayOccurrence (fixedZone c) (Some t) (of_int n) (map of_int ds) = Inr res"
    using findNextWeekdayOccurrence_days[OF assms(1,2), of "fixedZone c" t n]
      TimeClip_days[OF assms(5) kr]
    by (simp add: localDaysLater_fixed toISODate_def res_def d'_def k_def cur_def)
  have c: "cur = WeekDay (Day t)" by (simp add: cur_def getDay_def same)
  have wd: "WeekDay (dateNumber res) = (cur + k) mod 7"
    by (simp add: res_def dateNumber_toISODate d'_def Day_add_days WeekDay_add c)
  have "(cur + k) mod 7 \<in> set ds"
  proof (cases "n = 1 \<and> later \<noteq> []")
    case True
    define m where "m = Min (set later)"
    have "m \<in> set later" unfolding m_def using True by (intro Min_in) simp_all
    then have m: "m \<in> set ds" "0 \<le> m" "m \<le> 6" using assms(2) by (auto simp: later_def)
    have "k = m - cur"
      using True by (simp add: k_def specDaysToAdd_def Let_def later_def[symmetric] m_def)
    then have "(cur + k) mod 7 = m" using m(2,3) by simp
    then show ?thesis using m(1) by simp
  next
    case False
    define m where "m = Min (set ds)"
    have "m \<in> set ds" unfolding m_def using assms(1) by (intro Min_in) simp_all
    then have m: "m \<in> set ds" "0 \<le> m" "m \<le> 6" using assms(2) by auto
    have "k = (7 - cur + m) + (n - 1) * 7"
      using False by (auto simp: k_def specDaysToAdd_def Let_def later_def[symmetric] m_def)
    then have "cur + k = m + n * 7" by (simp add: algebra_simps)
    then have "(cur + k) mod 7 = m" using m(2,3) by simp
    then show ?thesis using m(1) by simp
  qed
  then show ?thesis using r wd by simp
qed

section \<open>The validator, the description and the form\<close>

lemma legacyOfName_legacyName: "legacyOfName (legacyName p) = Some p"
  by (cases p) (simp_all add: legacyOfName_def legacyName_def)

lemma unitOfValue_unitName: "unitOfValue (Some (JString (unitName u))) = Some u"
  by (cases u) (simp_all add: unitOfValue_def unitName_def)

lemma clampInterval_range: "1 \<le> clampInterval n \<and> clampInterval n \<le> 99"
  by (cases n) (simp_all add: clampInterval_def)

lemma clampInterval_integer: "isInteger (clampInterval n)"
proof (cases n)
  case (Finite x)
  have "clampInterval n = of_int (max 1 (min 99 \<lfloor>x\<rfloor>))"
    by (simp add: Finite clampInterval_def max_def min_def)
  then show ?thesis by (simp add: isInteger_def)
qed (simp_all add: clampInterval_def isInteger_def)

lemma clampInterval_again: "isInteger q \<Longrightarrow> 1 \<le> q \<Longrightarrow> q \<le> 99 \<Longrightarrow> clampInterval (Finite q) = q"
  by (simp add: clampInterval_def isInteger_def)

lemma fold_uniq_acc:
  "distinct acc \<Longrightarrow>
   distinct (fold (\<lambda>x seen. if x \<in> set seen then seen else seen @ [x]) xs acc)
   \<and> set (fold (\<lambda>x seen. if x \<in> set seen then seen else seen @ [x]) xs acc) = set acc \<union> set xs"
  by (induction xs arbitrary: acc) auto

lemma distinct_uniq: "distinct (uniq xs)" and set_uniq: "set (uniq xs) = set xs"
  using fold_uniq_acc[of "[]" xs] by (simp_all add: uniq_def)

lemma fold_uniq_distinct:
  "distinct (acc @ xs) \<Longrightarrow>
   fold (\<lambda>x seen. if x \<in> set seen then seen else seen @ [x]) xs acc = acc @ xs"
  by (induction xs arbitrary: acc) auto

lemma uniq_distinct: "distinct xs \<Longrightarrow> uniq xs = xs"
  using fold_uniq_distinct[of "[]" xs] by (simp add: uniq_def)

lemma validDay_range: "validDay v = Some d \<Longrightarrow> 0 \<le> d \<and> d \<le> 6"
  by (auto simp: validDay_def split: js_value.splits number.splits if_splits)

lemma set_map_filter_validDay: "d \<in> set (List.map_filter validDay xs) \<Longrightarrow> 0 \<le> d \<and> d \<le> 6"
  by (auto simp: map_filter_def dest: validDay_range)

lemma map_filter_validDay_again:
  "\<forall>d\<in>set l. 0 \<le> d \<and> d \<le> 6 \<Longrightarrow> List.map_filter validDay (map (\<lambda>d. JNumber (Finite d)) l) = l"
  by (induction l) (simp_all add: map_filter_simps validDay_def)

lemma validatedWeekDays_props:
  assumes "validatedWeekDays v = Some l"
  shows "l \<noteq> []" and "\<forall>d\<in>set l. 0 \<le> d \<and> d \<le> 6" and "sorted l" and "distinct l"
proof -
  obtain xs where l: "l = sort (uniq (List.map_filter validDay xs))"
    and ne: "List.map_filter validDay xs \<noteq> []"
    using assms
    by (auto simp: validatedWeekDays_def Let_def split: option.splits js_value.splits if_splits)
  have "set l = set (List.map_filter validDay xs)" by (simp add: l set_uniq)
  then show "l \<noteq> []" using ne by auto
  show "\<forall>d\<in>set l. 0 \<le> d \<and> d \<le> 6"
    using set_map_filter_validDay by (auto simp: l set_uniq)
  show "sorted l" by (simp add: l)
  show "distinct l" by (simp add: l distinct_uniq)
qed

lemma validatedWeekDays_again:
  assumes "l \<noteq> []" and "\<forall>d\<in>set l. 0 \<le> d \<and> d \<le> 6" and "sorted l" and "distinct l"
  shows "validatedWeekDays (Some (JArray (map (\<lambda>d. JNumber (Finite d)) l))) = Some l"
  using assms
  by (simp add: validatedWeekDays_def Let_def map_filter_validDay_again uniq_distinct sorted_sort_id)

lemma validatedMonthDay_range: "validatedMonthDay v = Some m \<Longrightarrow> 1 \<le> m \<and> m \<le> 31"
  by (auto simp: validatedMonthDay_def split: option.splits js_value.splits number.splits if_splits)

lemma validatedMonthDay_again:
  "1 \<le> m \<Longrightarrow> m \<le> 31 \<Longrightarrow> validatedMonthDay (Some (JNumber (Finite m))) = Some m"
  by (simp add: validatedMonthDay_def)

lemma validate_Flexible:
  assumes "validateRecurrence x = Flexible c"
  obtains props n where "x = JObject props" and "map_of props ''interval'' = Some (JNumber n)"
    and "\<not> numberLess n 1"
    and "interval c = clampInterval n"
    and "unitOfValue (map_of props ''unit'') = Some (unit c)"
    and "weekDays c = validatedWeekDays (map_of props ''weekDays'')"
    and "monthDay c = validatedMonthDay (map_of props ''monthDay'')"
  using assms
  by (auto simp: validateRecurrence_def split: js_value.splits option.splits if_splits)

lemma validate_asValue_Flexible:
  assumes "isInteger (interval c)" "1 \<le> interval c" "interval c \<le> 99"
    and "\<And>l. weekDays c = Some l \<Longrightarrow> l \<noteq> [] \<and> (\<forall>d\<in>set l. 0 \<le> d \<and> d \<le> 6) \<and> sorted l \<and> distinct l"
    and "\<And>m. monthDay c = Some m \<Longrightarrow> 1 \<le> m \<and> m \<le> 31"
  shows "validateRecurrence (asValue (Flexible c)) = Flexible c"
proof -
  have i: "clampInterval (Finite (interval c)) = interval c"
    using assms(1-3) by (rule clampInterval_again)
  have n: "\<not> numberLess (Finite (interval c)) 1"
    using assms(2) by (simp add: numberLess_def)
  have none: "validatedWeekDays None = None" "validatedMonthDay None = None"
    by (simp_all add: validatedWeekDays_def validatedMonthDay_def)
  show ?thesis
  proof (cases "weekDays c")
    case None
    show ?thesis
    proof (cases "monthDay c")
      case N2: None
      show ?thesis
        using None N2 i n
        by (simp add: validateRecurrence_def asValue_def unitOfValue_unitName none)
    next
      case (Some m)
      then show ?thesis
        using None i n assms(5)[OF Some]
        by (simp add: validateRecurrence_def asValue_def unitOfValue_unitName none
            validatedMonthDay_again)
    qed
  next
    case (Some l)
    note W = validatedWeekDays_again[of l]
    show ?thesis
    proof (cases "monthDay c")
      case None
      show ?thesis
        using Some None i n assms(4)[OF Some]
        by (simp add: validateRecurrence_def asValue_def unitOfValue_unitName none W)
    next
      case S2: (Some m)
      show ?thesis
        using Some S2 i n assms(4)[OF Some] assms(5)[OF S2]
        by (simp add: validateRecurrence_def asValue_def unitOfValue_unitName none W
            validatedMonthDay_again)
    qed
  qed
qed

lemma validate_invariants:
  assumes "validateRecurrence x = Flexible c"
  shows "isInteger (interval c)" "1 \<le> interval c" "interval c \<le> 99"
    and "\<And>l. weekDays c = Some l \<Longrightarrow> l \<noteq> [] \<and> (\<forall>d\<in>set l. 0 \<le> d \<and> d \<le> 6) \<and> sorted l \<and> distinct l"
    and "\<And>m. monthDay c = Some m \<Longrightarrow> 1 \<le> m \<and> m \<le> 31"
proof -
  from assms obtain props n where
    c: "interval c = clampInterval n"
      "weekDays c = validatedWeekDays (map_of props ''weekDays'')"
      "monthDay c = validatedMonthDay (map_of props ''monthDay'')"
    by (rule validate_Flexible)
  show "isInteger (interval c)" "1 \<le> interval c" "interval c \<le> 99"
    using clampInterval_integer[of n] clampInterval_range[of n] by (simp_all add: c)
  show "\<And>l. weekDays c = Some l \<Longrightarrow> l \<noteq> [] \<and> (\<forall>d\<in>set l. 0 \<le> d \<and> d \<le> 6) \<and> sorted l \<and> distinct l"
    using validatedWeekDays_props c(2) by metis
  show "\<And>m. monthDay c = Some m \<Longrightarrow> 1 \<le> m \<and> m \<le> 31"
    using validatedMonthDay_range c(3) by metis
qed

lemma validateRecurrence_validated:
  assumes "validateRecurrence x \<noteq> Null"
  shows "validated (validateRecurrence x)"
proof (cases "validateRecurrence x")
  case Null
  then show ?thesis using assms by simp
next
  case (Legacy p)
  then show ?thesis by (simp add: validated_def)
next
  case (Flexible c)
  note inv = validate_invariants[OF Flexible]
  have "list_all (\<lambda>d. 0 \<le> d \<and> d \<le> 6) l" if "weekDays c = Some l" for l
    using inv(4)[OF that] by (simp add: list_all_iff)
  then show ?thesis
    using inv(1-3) inv(5)
    by (simp add: Flexible validated_def validatedConfig_def split: option.splits)
qed

lemma length5: "length xs = 5 \<Longrightarrow> \<exists>a b c d e. xs = [a, b, c, d, e]"
  by (simp add: numeral_eq_Suc length_Suc_conv) blast

lemma length2: "length xs = 2 \<Longrightarrow> \<exists>a b. xs = [a, b]"
  by (simp add: numeral_eq_Suc length_Suc_conv) blast

lemma every5: "everyIsIndexPlusOne [a, b, c, d, e] = (a = 1 \<and> b = 2 \<and> c = 3 \<and> d = 4 \<and> e = 5)"
  by (auto simp: everyIsIndexPlusOne_def numeral_eq_Suc)

lemma weekdays_only:
  "length l = 5 \<Longrightarrow> everyIsIndexPlusOne l \<Longrightarrow> l = [1, 2, 3, 4, 5]"
  using length5[of l] by (auto simp: every5)

lemma weekend_only:
  "length l = 2 \<Longrightarrow> 0 \<in> set l \<Longrightarrow> 6 \<in> set l \<Longrightarrow> set l = {0, 6}" for l :: "rat list"
  using length2[of l] by auto

text \<open>Outside unit week no description is \<^verbatim>\<open>Weekends\<close> or \<^verbatim>\<open>Weekdays\<close>.\<close>

lemma other_units:
  assumes "u \<noteq> WeekUnit"
  shows "getRecurrenceDescription str
        (Flexible \<lparr>interval = 1, unit = u, weekDays = w, monthDay = md\<rparr>) \<noteq> ''Weekends''"
    and "getRecurrenceDescription str
        (Flexible \<lparr>interval = 1, unit = u, weekDays = w, monthDay = md\<rparr>) \<noteq> ''Weekdays''"
proof -
  have n: "a @ b @ '' of each month'' \<noteq> ''Weekends''" "a @ b @ '' of each month'' \<noteq> ''Weekdays''"
    for a b :: string
  proof -
    show "a @ b @ '' of each month'' \<noteq> ''Weekends''"
    proof
      assume e: "a @ b @ '' of each month'' = ''Weekends''"
      have "length (a @ b @ '' of each month'') = length ''Weekends''" by (simp only: e)
      then show False by simp
    qed
    show "a @ b @ '' of each month'' \<noteq> ''Weekdays''"
    proof
      assume e: "a @ b @ '' of each month'' = ''Weekdays''"
      have "length (a @ b @ '' of each month'') = length ''Weekdays''" by (simp only: e)
      then show False by simp
    qed
  qed
  show "getRecurrenceDescription str
        (Flexible \<lparr>interval = 1, unit = u, weekDays = w, monthDay = md\<rparr>) \<noteq> ''Weekends''"
    using assms n by (cases u) (simp_all add: getRecurrenceDescription_def Let_def)
  show "getRecurrenceDescription str
        (Flexible \<lparr>interval = 1, unit = u, weekDays = w, monthDay = md\<rparr>) \<noteq> ''Weekdays''"
    using assms n by (cases u) (simp_all add: getRecurrenceDescription_def Let_def)
qed

lemma build_parse_Flexible:
  "buildRecurrenceConfig (parseRecurrenceToFormState (Flexible c)) =
     Flexible \<lparr>interval = interval c, unit = unit c,
       weekDays = (case weekDays c of Some (w # ws) \<Rightarrow> if unit c = WeekUnit then Some (w # ws) else None
                   | _ \<Rightarrow> None),
       monthDay = (if unit c = MonthUnit \<and> truthy (monthDay c) then monthDay c else None)\<rparr>"
  by (auto simp: buildRecurrenceConfig_def parseRecurrenceToFormState_def truthy_def
      split: option.splits list.splits)

lemma validate_Legacy:
  "validateRecurrence x = Legacy p \<Longrightarrow> x = JString (legacyName p)"
  by (auto simp: validateRecurrence_def legacyOfName_def legacyName_def
      split: js_value.splits option.splits if_splits)

lemma weekDays_ignored:
  assumes "unit c \<noteq> WeekUnit"
  shows "calculateFlexibleNextDeadline tz d (c\<lparr>weekDays := w\<rparr>)
           = calculateFlexibleNextDeadline tz d c"
    and "getRecurrenceDescription str (Flexible (c\<lparr>weekDays := w\<rparr>))
           = getRecurrenceDescription str (Flexible c)"
proof -
  show "calculateFlexibleNextDeadline tz d (c\<lparr>weekDays := w\<rparr>)
           = calculateFlexibleNextDeadline tz d c"
    using assms by (cases "unit c"; cases d) (simp_all add: calculateFlexibleNextDeadline_def)
  show "getRecurrenceDescription str (Flexible (c\<lparr>weekDays := w\<rparr>))
           = getRecurrenceDescription str (Flexible c)"
    using assms by (simp add: getRecurrenceDescription_def Let_def)
qed

lemma monthDay_ignored:
  assumes "unit c \<noteq> MonthUnit"
  shows "calculateFlexibleNextDeadline tz d (c\<lparr>monthDay := m\<rparr>)
           = calculateFlexibleNextDeadline tz d c"
    and "getRecurrenceDescription str (Flexible (c\<lparr>monthDay := m\<rparr>))
           = getRecurrenceDescription str (Flexible c)"
proof -
  show "calculateFlexibleNextDeadline tz d (c\<lparr>monthDay := m\<rparr>)
           = calculateFlexibleNextDeadline tz d c"
    using assms
    by (cases "unit c"; cases d)
       (simp_all add: calculateFlexibleNextDeadline_def split: option.splits list.splits)
  show "getRecurrenceDescription str (Flexible (c\<lparr>monthDay := m\<rparr>))
           = getRecurrenceDescription str (Flexible c)"
    using assms by (cases "weekDays c") (simp_all add: getRecurrenceDescription_def Let_def)
qed

section \<open>The claims\<close>

subsection \<open>Month clamping\<close>

text \<open>
  C1. With unit month, \<open>monthDay = 31\<close> and interval 1, the deadline 31 January should
  be followed by the last day of February. The code first calls \<^verbatim>\<open>setMonth\<close>, which
  carries 31 February into March, and only then takes the length of the month for the
  clamp, which is now March: the result is 31 March, in a leap year and in a common
  year (host in UTC).
\<close>

theorem month_clamp_rolls_into_march:
  "calculateNextDeadline (fixedZone 0) now (Some (2024, 1, 31))
     (Flexible \<lparr>interval = 1, unit = MonthUnit, weekDays = None, monthDay = Some 31\<rparr>)
     = Inr (2024, 3, 31)
   \<and> calculateNextDeadline (fixedZone 0) now (Some (2023, 1, 31))
     (Flexible \<lparr>interval = 1, unit = MonthUnit, weekDays = None, monthDay = Some 31\<rparr>)
     = Inr (2023, 3, 31)"
  unfolding calculateNextDeadline_def baseDateOf_def
  by simp code_simp

subsection \<open>The next deadline is later than the base date\<close>

text \<open>
  C2. The returned date should be strictly after the date of the base. The calculator
  moves the base by whole days in the local time of the host and returns the UTC date
  of the result. On a host whose offset is constant the time value moves by as many
  days, and the returned date is later (lemma \<open>fixed_offset_strictly_later\<close>). Where
  the offset changes, it does not: in New York the clocks go forward on 10 March 2024.
  The deadline 10 March 2024 is midnight UTC, which is 19:00 of 9 March in local time;
  one day later in local time is 19:00 of 10 March, by then four hours behind UTC,
  which is 23:00 UTC of 10 March, 23 hours after the base. The daily pattern, and the
  flexible recurrence of every day, return the date of the base itself.
\<close>

theorem next_deadline_same_date_at_clock_change:
  "calculateNextDeadline newYork2024 now (Some (2024, 3, 10)) (Legacy Daily) = Inr (2024, 3, 10)
   \<and> calculateNextDeadline newYork2024 now (Some (2024, 3, 10))
        (Flexible \<lparr>interval = 1, unit = DayUnit, weekDays = None, monthDay = None\<rparr>)
      = Inr (2024, 3, 10)
   \<and> newDateParse (2024, 3, 10) = Some 1710028800000
   \<and> getDate newYork2024 1710028800000 = 9
   \<and> setDate newYork2024 1710028800000 10 = Some (1710028800000 + 23 * 3600000)"
  unfolding calculateNextDeadline_def baseDateOf_def
  by simp code_simp

text \<open>
  Apart from the clock, the validator lets a week day pass that is not an integer, and
  \<^verbatim>\<open>setDate\<close> truncates: on a host in UTC, from Tuesday 2 January 2024 with the validated
  week days \<^verbatim>\<open>[2.5]\<close>, half a day is added and the date of the base is returned.
\<close>

lemma fractional_week_day_same_date:
  "validateRecurrence
     (JObject [(''interval'', JNumber (Finite 1)), (''unit'', JString ''week''),
               (''weekDays'', JArray [JNumber (Finite (5 / 2))])])
     = Flexible \<lparr>interval = 1, unit = WeekUnit, weekDays = Some [5 / 2], monthDay = None\<rparr>
   \<and> calculateNextDeadline (fixedZone 0) 0 (Some (2024, 1, 2))
        (Flexible \<lparr>interval = 1, unit = WeekUnit, weekDays = Some [5 / 2], monthDay = None\<rparr>)
      = Inr (2024, 1, 2)"
  by code_simp

subsection \<open>The days added for selected week days\<close>

text \<open>
  C3. For unit week with selected week days the routine moves the local time of the
  base by \<open>specDaysToAdd\<close> days, the number of days that the specification gives, but
  counted from the week day that the base has in the local time of the host (lemma
  \<open>findNextWeekdayOccurrence_days\<close>), not from the week day of the base date. A
  deadline is parsed as midnight UTC, which west of Greenwich is the evening before. On
  a host five hours behind UTC the deadline Wednesday 3 January 2024, with the days
  Monday and Wednesday and interval 1, is a Tuesday in local time: the calculator adds
  one day, where the formula gives five, and returns Thursday 4 January 2024, where the
  specification expects Monday 8 January. From the deadline 4 January 2024, which is a
  Wednesday in local time, it returns Tuesday 9 January 2024.
\<close>

theorem weekday_days_added_west_of_utc:
  "calculateNextDeadline (fixedZone (- 18000000)) now (Some (2024, 1, 3))
        (Flexible \<lparr>interval = 1, unit = WeekUnit, weekDays = Some [1, 3], monthDay = None\<rparr>)
      = Inr (2024, 1, 4)
   \<and> WeekDay (dateNumber (2024, 1, 3)) = 3
   \<and> specDaysToAdd (WeekDay (dateNumber (2024, 1, 3))) 1 [1, 3] = 5
   \<and> dateNumber (2024, 1, 4) = dateNumber (2024, 1, 3) + 1
   \<and> dateNumber (2024, 1, 8) = dateNumber (2024, 1, 3) + 5
   \<and> calculateNextDeadline (fixedZone (- 18000000)) now (Some (2024, 1, 4))
        (Flexible \<lparr>interval = 1, unit = WeekUnit, weekDays = Some [1, 3], monthDay = None\<rparr>)
      = Inr (2024, 1, 9)
   \<and> WeekDay (dateNumber (2024, 1, 9)) = 2"
  unfolding calculateNextDeadline_def baseDateOf_def
  by simp code_simp

subsection \<open>The round trip through the edit form\<close>

text \<open>
  C4. Parsing a recurrence into the form state and building it again gives a recurrence
  with the same description and the same next deadline for every base date (and every
  host). The representation may change: week days are dropped outside unit week, a
  month day outside unit month. A recurrence of the data model has its month day from
  1 to 31; the round trip needs only that it is not 0 (a month day 0 is dropped by the
  form, while the calculator would use it).
\<close>

theorem form_round_trip:
  assumes "\<forall>c. s = Flexible c \<longrightarrow> monthDay c \<noteq> Some 0"
  shows "getRecurrenceDescription str (buildRecurrenceConfig (parseRecurrenceToFormState s))
           = getRecurrenceDescription str s
       \<and> calculateNextDeadline tz now dl (buildRecurrenceConfig (parseRecurrenceToFormState s))
           = calculateNextDeadline tz now dl s"
proof (cases s)
  case Null
  then show ?thesis
    by (simp add: buildRecurrenceConfig_def parseRecurrenceToFormState_def defaultRecurrenceForm_def)
next
  case (Legacy p)
  then show ?thesis
    by (simp add: buildRecurrenceConfig_def parseRecurrenceToFormState_def)
next
  case (Flexible c)
  then have md: "monthDay c \<noteq> Some 0" using assms by simp
  have d: "getRecurrenceDescription str (buildRecurrenceConfig (parseRecurrenceToFormState (Flexible c)))
           = getRecurrenceDescription str (Flexible c)"
    unfolding build_parse_Flexible using md
    by (cases "unit c"; cases "weekDays c"; cases "monthDay c")
       (auto simp: getRecurrenceDescription_def truthy_def Let_def split: list.splits)
  have n: "calculateFlexibleNextDeadline tz b
             \<lparr>interval = interval c, unit = unit c,
       weekDays = (case weekDays c of Some (w # ws) \<Rightarrow> if unit c = WeekUnit then Some (w # ws) else None
                   | _ \<Rightarrow> None),
       monthDay = (if unit c = MonthUnit \<and> truthy (monthDay c) then monthDay c else None)\<rparr>
           = calculateFlexibleNextDeadline tz b c" for b
    using md
    by (cases "unit c"; cases "weekDays c"; cases "monthDay c"; cases b)
       (auto simp: calculateFlexibleNextDeadline_def truthy_def Let_def split: list.splits)
  show ?thesis
    unfolding Flexible using d n
    by (simp add: calculateNextDeadline_def build_parse_Flexible)
qed

text \<open>An instance in which the representation changes.\<close>

theorem form_round_trip_witness:
  "monthDay \<lparr>interval = 2, unit = DayUnit, weekDays = Some [1], monthDay = Some 15\<rparr> \<noteq> Some 0
   \<and> buildRecurrenceConfig (parseRecurrenceToFormState
        (Flexible \<lparr>interval = 2, unit = DayUnit, weekDays = Some [1], monthDay = Some 15\<rparr>))
      = Flexible \<lparr>interval = 2, unit = DayUnit, weekDays = None, monthDay = None\<rparr>
   \<and> getRecurrenceDescription (\<lambda>q. [])
        (Flexible \<lparr>interval = 2, unit = DayUnit, weekDays = None, monthDay = None\<rparr>)
      = getRecurrenceDescription (\<lambda>q. [])
        (Flexible \<lparr>interval = 2, unit = DayUnit, weekDays = Some [1], monthDay = Some 15\<rparr>)
   \<and> calculateNextDeadline (fixedZone 0) 0 None
        (Flexible \<lparr>interval = 2, unit = DayUnit, weekDays = None, monthDay = None\<rparr>)
      = calculateNextDeadline (fixedZone 0) 0 None
        (Flexible \<lparr>interval = 2, unit = DayUnit, weekDays = Some [1], monthDay = Some 15\<rparr>)"
proof -
  have h: "\<forall>c. Flexible \<lparr>interval = 2, unit = DayUnit, weekDays = Some [1], monthDay = Some 15\<rparr>
          = Flexible c \<longrightarrow> monthDay c \<noteq> Some 0"
    by auto
  have b: "buildRecurrenceConfig (parseRecurrenceToFormState
        (Flexible \<lparr>interval = 2, unit = DayUnit, weekDays = Some [1], monthDay = Some 15\<rparr>))
      = Flexible \<lparr>interval = 2, unit = DayUnit, weekDays = None, monthDay = None\<rparr>"
    by (simp add: buildRecurrenceConfig_def parseRecurrenceToFormState_def)
  show ?thesis
    using form_round_trip[OF h, where str = "\<lambda>q. []" and tz = "fixedZone 0" and now = 0 and dl = None] h b
    by simp
qed

subsection \<open>The validator is idempotent\<close>

text \<open>
  C5. Validating the value that the validator returned gives the same recurrence again:
  \<open>validate (validate x) = validate x\<close> for every JSON value (or \<^verbatim>\<open>undefined\<close>) \<open>x\<close>.
\<close>

theorem validateRecurrence_idempotent:
  "validateRecurrence (asValue (validateRecurrence x)) = validateRecurrence x"
proof (cases "validateRecurrence x")
  case Null
  then show ?thesis by (simp add: asValue_def validateRecurrence_def)
next
  case (Legacy p)
  then show ?thesis
    by (simp add: asValue_def validateRecurrence_def legacyOfName_legacyName)
next
  case (Flexible c)
  show ?thesis
    unfolding Flexible
    using validate_invariants[OF Flexible] by (intro validate_asValue_Flexible) blast+
qed

subsection \<open>The invariants of a validated recurrence\<close>

text \<open>
  C6, as the code has it. A flexible recurrence returned by the validator has an integer
  interval from 1 to 99; its week days, when present, are a non-empty list of numbers
  from 0 to 6, without duplicates and in ascending order; its month day, when present,
  is from 1 to 31. Week days and month day are kept whatever the unit is: they are not
  absent outside unit week (unit month), but the calculator and the description ignore
  them there.
\<close>

theorem validated_config_invariants:
  assumes "validateRecurrence x = Flexible c"
  shows "isInteger (interval c) \<and> 1 \<le> interval c \<and> interval c \<le> 99
       \<and> (\<forall>l. weekDays c = Some l \<longrightarrow>
             l \<noteq> [] \<and> (\<forall>d\<in>set l. 0 \<le> d \<and> d \<le> 6) \<and> sorted l \<and> distinct l)
       \<and> (\<forall>m. monthDay c = Some m \<longrightarrow> 1 \<le> m \<and> m \<le> 31)
       \<and> (unit c \<noteq> WeekUnit \<longrightarrow>
             calculateFlexibleNextDeadline tz d (c\<lparr>weekDays := w\<rparr>)
               = calculateFlexibleNextDeadline tz d c
             \<and> getRecurrenceDescription str (Flexible (c\<lparr>weekDays := w\<rparr>))
               = getRecurrenceDescription str (Flexible c))
       \<and> (unit c \<noteq> MonthUnit \<longrightarrow>
             calculateFlexibleNextDeadline tz d (c\<lparr>monthDay := m'\<rparr>)
               = calculateFlexibleNextDeadline tz d c
             \<and> getRecurrenceDescription str (Flexible (c\<lparr>monthDay := m'\<rparr>))
               = getRecurrenceDescription str (Flexible c))"
proof -
  note inv = validate_invariants[OF assms]
  have "\<forall>l. weekDays c = Some l \<longrightarrow>
          l \<noteq> [] \<and> (\<forall>d\<in>set l. 0 \<le> d \<and> d \<le> 6) \<and> sorted l \<and> distinct l"
    using inv(4) by blast
  moreover have "\<forall>m. monthDay c = Some m \<longrightarrow> 1 \<le> m \<and> m \<le> 31"
    using inv(5) by blast
  ultimately show ?thesis
    using inv(1-3) by (simp add: weekDays_ignored monthDay_ignored)
qed

text \<open>
  An instance: the interval 2.7 is floored, the week days 3, 1, 3, 9 and \<^verbatim>\<open>"Mon"\<close> are
  filtered, de-duplicated and sorted, and both week days and month day stay with unit
  day.
\<close>

theorem validated_config_invariants_witness:
  "validateRecurrence
     (JObject [(''interval'', JNumber (Finite (27 / 10))), (''unit'', JString ''day''),
               (''weekDays'', JArray [JNumber (Finite 3), JNumber (Finite 1), JNumber (Finite 3),
                                      JNumber (Finite 9), JString ''Mon'']),
               (''monthDay'', JNumber (Finite 15))])
     = Flexible \<lparr>interval = 2, unit = DayUnit, weekDays = Some [1, 3], monthDay = Some 15\<rparr>
   \<and> isInteger (2 :: rat) \<and> sorted [1, 3 :: rat] \<and> distinct [1, 3 :: rat]
   \<and> calculateFlexibleNextDeadline (fixedZone 0) (Some 0)
        \<lparr>interval = 2, unit = DayUnit, weekDays = None, monthDay = Some 15\<rparr>
      = calculateFlexibleNextDeadline (fixedZone 0) (Some 0)
        \<lparr>interval = 2, unit = DayUnit, weekDays = Some [1, 3], monthDay = Some 15\<rparr>"
proof -
  have h: "validateRecurrence
     (JObject [(''interval'', JNumber (Finite (27 / 10))), (''unit'', JString ''day''),
               (''weekDays'', JArray [JNumber (Finite 3), JNumber (Finite 1), JNumber (Finite 3),
                                      JNumber (Finite 9), JString ''Mon'']),
               (''monthDay'', JNumber (Finite 15))])
     = Flexible \<lparr>interval = 2, unit = DayUnit, weekDays = Some [1, 3], monthDay = Some 15\<rparr>"
    by code_simp
  show ?thesis
    using validated_config_invariants[OF h, where tz = "fixedZone 0" and d = "Some 0" and w = None
        and str = "\<lambda>q. []" and m' = None] h
    by simp
qed

text \<open>
  The claim as it is stated fails: for unit day the validator returns the week days and
  the month day of its input.
\<close>

theorem validated_weekDays_outside_week:
  "validateRecurrence
     (JObject [(''interval'', JNumber (Finite 1)), (''unit'', JString ''day''),
               (''weekDays'', JArray [JNumber (Finite 1)]),
               (''monthDay'', JNumber (Finite 15))])
     = Flexible \<lparr>interval = 1, unit = DayUnit, weekDays = Some [1], monthDay = Some 15\<rparr>
   \<and> unit \<lparr>interval = 1, unit = DayUnit, weekDays = Some [1], monthDay = Some 15\<rparr> \<noteq> WeekUnit
   \<and> weekDays \<lparr>interval = 1, unit = DayUnit, weekDays = Some [1], monthDay = Some 15\<rparr> \<noteq> None
   \<and> unit \<lparr>interval = 1, unit = DayUnit, weekDays = Some [1], monthDay = Some 15\<rparr> \<noteq> MonthUnit
   \<and> monthDay \<lparr>interval = 1, unit = DayUnit, weekDays = Some [1], monthDay = Some 15\<rparr> \<noteq> None"
proof -
  have "validateRecurrence
     (JObject [(''interval'', JNumber (Finite 1)), (''unit'', JString ''day''),
               (''weekDays'', JArray [JNumber (Finite 1)]),
               (''monthDay'', JNumber (Finite 15))])
     = Flexible \<lparr>interval = 1, unit = DayUnit, weekDays = Some [1], monthDay = Some 15\<rparr>"
    by code_simp
  then show ?thesis by simp
qed

text \<open>
  The filter of the week days and the test of the month day compare numbers only: a
  number that is not an integer passes both.
\<close>

lemma validator_keeps_fractions:
  "validateRecurrence
     (JObject [(''interval'', JNumber (Finite 1)), (''unit'', JString ''week''),
               (''weekDays'', JArray [JNumber (Finite (5 / 2))]),
               (''monthDay'', JNumber (Finite (31 / 2)))])
   = Flexible \<lparr>interval = 1, unit = WeekUnit, weekDays = Some [5 / 2], monthDay = Some (31 / 2)\<rparr>"
  by code_simp

subsection \<open>The validator never fails\<close>

text \<open>
  C7. The validator is a total function of the JSON value: no step of it can throw. A
  text is returned as it is when it is one of the four legacy names, written exactly
  so, and gives no recurrence otherwise; \<^verbatim>\<open>null\<close>, an absent value, a boolean, a number
  and an array give no recurrence. Every result is no recurrence, the legacy name that
  was given, or a flexible recurrence with an integer interval from 1 to 99.
\<close>

theorem validateRecurrence_cases:
  "asValue (validateRecurrence (JString s)) =
     (if s = ''daily'' \<or> s = ''weekly'' \<or> s = ''monthly'' \<or> s = ''yearly'' then JString s else JNull)
   \<and> validateRecurrence JNull = Null
   \<and> validateRecurrence JUndefined = Null
   \<and> validateRecurrence (JBool b) = Null
   \<and> validateRecurrence (JNumber n) = Null
   \<and> validateRecurrence (JArray xs) = Null
   \<and> validateRecurrence (JString ''Daily'') = Null
   \<and> (validateRecurrence x = Null
      \<or> (\<exists>p. x = JString (legacyName p) \<and> validateRecurrence x = Legacy p)
      \<or> (\<exists>c. validateRecurrence x = Flexible c
            \<and> isInteger (interval c) \<and> 1 \<le> interval c \<and> interval c \<le> 99))"
proof -
  have "validateRecurrence x = Null
      \<or> (\<exists>p. x = JString (legacyName p) \<and> validateRecurrence x = Legacy p)
      \<or> (\<exists>c. validateRecurrence x = Flexible c
            \<and> isInteger (interval c) \<and> 1 \<le> interval c \<and> interval c \<le> 99)"
  proof (cases "validateRecurrence x")
    case Null
    then show ?thesis by simp
  next
    case (Legacy p)
    then show ?thesis using validate_Legacy by blast
  next
    case (Flexible c)
    then show ?thesis using validate_invariants(1-3)[OF Flexible] by simp
  qed
  then show ?thesis
    by (simp add: validateRecurrence_def asValue_def legacyOfName_def legacyName_def)
qed

subsection \<open>The errors of the calculator\<close>




subsection \<open>Weekends and weekdays\<close>

text \<open>
  C9. With interval 1 the description is exactly \<^verbatim>\<open>Weekends\<close> for unit week and the
  week days 0 and 6, and exactly \<^verbatim>\<open>Weekdays\<close> for unit week and the week days 1, 2, 3,
  4, 5 in this order; no other unit or set of week days is described as \<^verbatim>\<open>Weekends\<close>,
  and no other unit or list of week days as \<^verbatim>\<open>Weekdays\<close>.
\<close>

theorem weekend_weekday_descriptions:
  "getRecurrenceDescription str
     (Flexible \<lparr>interval = 1, unit = WeekUnit, weekDays = Some [0, 6], monthDay = md\<rparr>)
     = ''Weekends''
   \<and> getRecurrenceDescription str
     (Flexible \<lparr>interval = 1, unit = WeekUnit, weekDays = Some [1, 2, 3, 4, 5], monthDay = md\<rparr>)
     = ''Weekdays''
   \<and> (getRecurrenceDescription str
        (Flexible \<lparr>interval = 1, unit = u, weekDays = w, monthDay = md\<rparr>) = ''Weekends''
      \<longrightarrow> u = WeekUnit \<and> (\<exists>l. w = Some l \<and> set l = {0, 6}))
   \<and> (getRecurrenceDescription str
        (Flexible \<lparr>interval = 1, unit = u, weekDays = w, monthDay = md\<rparr>) = ''Weekdays''
      \<longrightarrow> u = WeekUnit \<and> w = Some [1, 2, 3, 4, 5])"
proof (intro conjI impI)
  show "getRecurrenceDescription str
     (Flexible \<lparr>interval = 1, unit = WeekUnit, weekDays = Some [0, 6], monthDay = md\<rparr>)
     = ''Weekends''"
    by (simp add: getRecurrenceDescription_def every5 everyIsIndexPlusOne_def)
  show "getRecurrenceDescription str
     (Flexible \<lparr>interval = 1, unit = WeekUnit, weekDays = Some [1, 2, 3, 4, 5], monthDay = md\<rparr>)
     = ''Weekdays''"
    by (simp add: getRecurrenceDescription_def every5)
next
  assume a: "getRecurrenceDescription str
        (Flexible \<lparr>interval = 1, unit = u, weekDays = w, monthDay = md\<rparr>) = ''Weekends''"
  then show u: "u = WeekUnit" using other_units(1)[of u str w md] by blast
  show "\<exists>l. w = Some l \<and> set l = {0, 6}"
  proof (cases w)
    case None
    then show ?thesis using a u by (simp add: getRecurrenceDescription_def)
  next
    case (Some l)
    then show ?thesis using a u weekend_only[of l]
      by (auto simp: getRecurrenceDescription_def Let_def split: if_splits)
  qed
next
  assume a: "getRecurrenceDescription str
        (Flexible \<lparr>interval = 1, unit = u, weekDays = w, monthDay = md\<rparr>) = ''Weekdays''"
  then show u: "u = WeekUnit" using other_units(2)[of u str w md] by blast
  show "w = Some [1, 2, 3, 4, 5]"
  proof (cases w)
    case None
    then show ?thesis using a u by (simp add: getRecurrenceDescription_def)
  next
    case (Some l)
    then show ?thesis using a u weekdays_only[of l]
      by (auto simp: getRecurrenceDescription_def Let_def split: if_splits)
  qed
qed

text \<open>An instance: the days 6 and 0, in this order, are the weekend as well.\<close>

theorem weekend_weekday_descriptions_witness:
  "getRecurrenceDescription (\<lambda>q. [])
     (Flexible \<lparr>interval = 1, unit = WeekUnit, weekDays = Some [6, 0], monthDay = None\<rparr>)
     = ''Weekends''
   \<and> set [6, 0 :: rat] = {0, 6}
   \<and> getRecurrenceDescription (\<lambda>q. [])
     (Flexible \<lparr>interval = 1, unit = WeekUnit, weekDays = Some [1, 2, 3, 4, 5], monthDay = None\<rparr>)
     = ''Weekdays''"
proof -
  have a: "getRecurrenceDescription (\<lambda>q. [])
     (Flexible \<lparr>interval = 1, unit = WeekUnit, weekDays = Some [6, 0], monthDay = None\<rparr>)
     = ''Weekends''"
    by (simp add: getRecurrenceDescription_def everyIsIndexPlusOne_def)
  show ?thesis
    using weekend_weekday_descriptions[where str = "\<lambda>q. []" and md = None
        and u = WeekUnit and w = "Some [6, 0]"] a
    by auto
qed

subsection \<open>The week day of the returned date\<close>

text \<open>
  C10. The routine moves the base to a selected week day of the host's local calendar
  (\<^verbatim>\<open>getDay\<close>, \<^verbatim>\<open>setDate\<close>), but returns the UTC date of the result (\<^verbatim>\<open>toISOString\<close>). When
  the base lies on the same day in both calendars the returned date falls on a selected
  week day (lemma \<open>weekday_occurrence_selected_when_days_agree\<close>). A deadline is parsed
  as midnight UTC, which west of Greenwich is the evening before: in a host five hours
  behind UTC, the deadline Wednesday 3 January 2024 with the days Monday and Wednesday
  and interval 1 gives Thursday 4 January 2024, a day that is not selected.
\<close>

theorem weekday_occurrence_west_of_utc:
  "findNextWeekdayOccurrence (fixedZone (- 18000000)) (newDateParse (2024, 1, 3)) 1 [1, 3] = Inr (2024, 1, 4)
   \<and> calculateNextDeadline (fixedZone (- 18000000)) now (Some (2024, 1, 3))
        (Flexible \<lparr>interval = 1, unit = WeekUnit, weekDays = Some [1, 3], monthDay = None\<rparr>)
      = Inr (2024, 1, 4)
   \<and> WeekDay (dateNumber (2024, 1, 3)) = 3
   \<and> WeekDay (dateNumber (2024, 1, 4)) = 4"
  unfolding calculateNextDeadline_def baseDateOf_def
  by simp code_simp

end
